theory Spec2Isabelle
  imports Complex_Main "HOL-Library.AList" "HOL-Library.Multiset"
begin

section \<open>Data model of the bubble hierarchy component\<close>

text \<open>
  The component (\<^verbatim>\<open>src/components/FinanceSigmaGraph.tsx\<close>) turns a flat list of
  items into a tree (\<^verbatim>\<open>nestFlatToTree\<close>) and lays out three tiers of bubbles
  (\<^verbatim>\<open>computeBubblePackingLayout\<close>).

  JavaScript numbers are modelled as follows: \<^verbatim>\<open>level\<close> is an \<^typ>\<open>int\<close>, every
  geometric quantity is a \<^typ>\<open>real\<close>. Rounding, NaN and overflow of IEEE doubles are
  outside the model; the one \<^verbatim>\<open>Infinity\<close> that the source produces on purpose
  (\<^verbatim>\<open>neighborRingCap\<close>) is the value \<^term>\<open>None\<close> of a \<^typ>\<open>real option\<close>.
\<close>

record FlatItem =
  name :: string
  level :: int
  parent :: "string option"
  source :: "string option"
  value' :: "real option"

text \<open>
  \<^verbatim>\<open>nestFlatToTree\<close> creates one object \<^verbatim>\<open>{ ...it, children: [] }\<close> per map entry and
  later pushes references to these objects into each other's \<^verbatim>\<open>children\<close> arrays.
  The objects live in a store keyed by name (the key of \<^verbatim>\<open>byName\<close>); a reference
  to an object is its key. A JavaScript \<^verbatim>\<open>Map\<close> iterates in insertion order and
  \<^verbatim>\<open>set\<close> on an existing key replaces the value in place, which is what
  \<^const>\<open>AList.update\<close> does on an association list.
\<close>

record TreeObj = FlatItem +
  children :: "string list"

type_synonym store = "(string \<times> TreeObj) list"

datatype error = LevelOutOfRange string int | TypeError

text \<open>The value returned by \<^verbatim>\<open>nestFlatToTree\<close>: the synthetic root object
  \<^verbatim>\<open>{ name: "root", children: roots }\<close> together with the objects its references
  point into.\<close>

record RootRef =
  root_name :: string
  root_children :: "string list"
  objects :: store

section \<open>nestFlatToTree\<close>

definition newObj :: "FlatItem \<Rightarrow> TreeObj" where
  "newObj it = \<lparr>name = name it, level = level it, parent = parent it,
     source = source it, value' = value' it, children = []\<rparr>"

text \<open>First loop: validate the level, then \<^verbatim>\<open>byName.set(it.name, ...)\<close>. The
  \<^verbatim>\<open>throw\<close> leaves the loop at once.\<close>

fun indexItems :: "FlatItem list \<Rightarrow> store \<Rightarrow> error + store" where
  "indexItems [] byName = Inr byName"
| "indexItems (it # items) byName =
     (if level it < 1 \<or> level it > 6 then Inl (LevelOutOfRange (name it) (level it))
      else indexItems items (AList.update (name it) (newObj it) byName))"

text \<open>\<^verbatim>\<open>node.parent ? byName.get(node.parent) : undefined\<close>: an absent parent and
  the empty string are both falsy; an object, once found, is truthy.\<close>

definition lookupParent :: "store \<Rightarrow> TreeObj \<Rightarrow> string option" where
  "lookupParent byName node =
     (case parent node of
        None \<Rightarrow> None
      | Some pn \<Rightarrow> if pn = [] then None
                   else (case map_of byName pn of None \<Rightarrow> None | Some p \<Rightarrow> Some pn))"

text \<open>\<^verbatim>\<open>p.children.push(node)\<close> on the object referenced by \<open>p\<close>.\<close>

definition pushChild :: "string \<Rightarrow> string \<Rightarrow> store \<Rightarrow> store" where
  "pushChild p n byName =
     (case map_of byName p of
        None \<Rightarrow> byName
      | Some obj \<Rightarrow> AList.update p (obj\<lparr>children := children obj @ [n]\<rparr>) byName)"

text \<open>One iteration of the second loop, for the object stored under key \<open>k\<close>.\<close>

fun attachNode :: "string \<Rightarrow> store \<times> string list \<Rightarrow> store \<times> string list" where
  "attachNode k (byName, roots) =
     (case map_of byName k of
        None \<Rightarrow> (byName, roots)
      | Some node \<Rightarrow>
          if level node = 1 then (byName, roots @ [k])
          else (case lookupParent byName node of
                  Some p \<Rightarrow> (pushChild p k byName, roots)
                | None \<Rightarrow> (byName, roots @ [k])))"

definition nestFlatToTree :: "FlatItem list \<Rightarrow> error + RootRef" where
  "nestFlatToTree items =
     (case indexItems items [] of
        Inl e \<Rightarrow> Inl e
      | Inr byName \<Rightarrow>
          (let (objs, roots) = fold attachNode (map fst byName) (byName, [])
           in Inr \<lparr>root_name = ''root'', root_children = roots, objects = objs\<rparr>))"

section \<open>Auxiliary notions for nestFlatToTree\<close>

text \<open>The table \<^verbatim>\<open>byName\<close> that the first loop builds from a start table when no level is
  rejected.\<close>

definition byNameOf :: "FlatItem list \<Rightarrow> store \<Rightarrow> store" where
  "byNameOf items m = fold (\<lambda>it. AList.update (name it) (newObj it)) items m"

text \<open>Every level passes the check of the first loop.\<close>

definition levelsOk :: "FlatItem list \<Rightarrow> bool" where
  "levelsOk items = list_all (\<lambda>it. 1 \<le> level it \<and> level it \<le> 6) items"

text \<open>The records that own an object after the first loop: of the records sharing a name,
  the last one.\<close>

fun survivors :: "FlatItem list \<Rightarrow> FlatItem list" where
  "survivors [] = []"
| "survivors (it # items) =
     (if name it \<in> name ` set items then survivors items else it # survivors items)"

text \<open>Where the second loop pushes the object stored under \<open>k\<close>: \<^term>\<open>None\<close> stands for
  \<^verbatim>\<open>roots\<close>, \<^term>\<open>Some p\<close> for the \<^verbatim>\<open>children\<close> of the object stored under \<open>p\<close>. The
  loop changes neither keys, levels nor parents, so the answer is the same in every
  iteration.\<close>

definition target :: "store \<Rightarrow> string \<Rightarrow> string option" where
  "target bn k =
     (case map_of bn k of
        None \<Rightarrow> None
      | Some node \<Rightarrow> if level node = 1 then None else lookupParent bn node)"

text \<open>The table after the second loop has visited the keys \<open>ks\<close>: every object has received,
  in visiting order, the keys that were pushed into it.\<close>

definition decorate :: "string list \<Rightarrow> store \<Rightarrow> store" where
  "decorate ks bn =
     map (\<lambda>(k, obj). (k, obj\<lparr>children := children obj @ filter (\<lambda>c. target bn c = Some k) ks\<rparr>)) bn"

text \<open>Every reference held anywhere in the returned object graph: the children of the root
  followed by the children of every object.\<close>

definition allRefs :: "RootRef \<Rightarrow> string list" where
  "allRefs t = root_children t @ concat (map (\<lambda>e. children (snd e)) (objects t))"

text \<open>The nodes of the returned tree: the objects reached from the root by following
  \<^verbatim>\<open>children\<close> references.\<close>

inductive inTree :: "RootRef \<Rightarrow> string \<Rightarrow> bool" for t :: RootRef where
  root_child: "k \<in> set (root_children t) \<Longrightarrow> inTree t k"
| child: "inTree t p \<Longrightarrow> map_of (objects t) p = Some obj \<Longrightarrow> k \<in> set (children obj) \<Longrightarrow> inTree t k"

code_pred inTree .

text \<open>Records and objects without source and value, for concrete inputs.\<close>

definition mkItem :: "string \<Rightarrow> int \<Rightarrow> string option \<Rightarrow> FlatItem" where
  "mkItem n l p = \<lparr>name = n, level = l, parent = p, source = None, value' = None\<rparr>"

definition mkObj :: "string \<Rightarrow> int \<Rightarrow> string option \<Rightarrow> string list \<Rightarrow> TreeObj" where
  "mkObj n l p cs = \<lparr>name = n, level = l, parent = p, source = None, value' = None, children = cs\<rparr>"

section \<open>computeBubblePackingLayout\<close>

text \<open>
  The layout reads the focus node, its children and their children, nothing deeper, and
  mutates none of them. Its input is therefore modelled as a finite tree value; optional
  fields of the TypeScript type are options.
\<close>

datatype TreeNode = TreeNode
  (tn_name: string)
  (tn_level: "int option")
  (tn_parent: "string option")
  (tn_source: "string option")
  (tn_value: "real option")
  (tn_children: "TreeNode list option")

record PlacedBubble =
  b_id :: string
  b_name :: string
  b_depth :: nat
  b_data :: TreeNode
  b_r :: real
  b_x :: real
  b_y :: real
  b_parentId :: "string option"

record ChildPlaced = PlacedBubble +
  angle :: real

record ChildInfo =
  ci_node :: TreeNode
  ci_r :: real
  ci_gc :: nat

record Layout =
  nodes :: "PlacedBubble list"
  l_side :: real

definition clamp :: "real \<Rightarrow> real \<Rightarrow> real \<Rightarrow> real" where
  "clamp v mn mx = max mn (min mx v)"

text \<open>\<^verbatim>\<open>focus.children || []\<close> and \<^verbatim>\<open>ch.data.children || []\<close>.\<close>

definition childrenOrEmpty :: "TreeNode \<Rightarrow> TreeNode list" where
  "childrenOrEmpty n = (case tn_children n of None \<Rightarrow> [] | Some cs \<Rightarrow> cs)"

definition rParent :: "real \<Rightarrow> real" where
  "rParent side = clamp (side * 0.16) 40 120"

text \<open>The callback of \<^verbatim>\<open>children.map\<close> that builds \<^verbatim>\<open>childInfo\<close>;
  \<^verbatim>\<open>c.children?.length ?? 0\<close> is the length of \<^const>\<open>childrenOrEmpty\<close>.\<close>

definition childInfoOf :: "real \<Rightarrow> TreeNode \<Rightarrow> ChildInfo" where
  "childInfoOf side c =
     (let gc = length (childrenOrEmpty c);
          r = clamp (side * 0.06 + real gc * (side * 0.005)) (side * 0.05) (side * 0.12)
      in \<lparr>ci_node = c, ci_r = r, ci_gc = gc\<rparr>)"

definition gapC :: "real \<Rightarrow> real" where
  "gapC side = clamp (side * 0.008) 6 16"

definition circumferenceNeeded :: "real \<Rightarrow> ChildInfo list \<Rightarrow> real" where
  "circumferenceNeeded side childInfo = fold (\<lambda>it acc. acc + (2 * ci_r it + gapC side)) childInfo 0"

definition baseRing :: "real \<Rightarrow> ChildInfo list \<Rightarrow> real" where
  "baseRing side childInfo = rParent side + fold (\<lambda>it m. max m (ci_r it)) childInfo 0 + 28"

definition ringR :: "real \<Rightarrow> ChildInfo list \<Rightarrow> real" where
  "ringR side childInfo = max (baseRing side childInfo) (circumferenceNeeded side childInfo / (2 * pi))"

definition ringCirc :: "real \<Rightarrow> ChildInfo list \<Rightarrow> real" where
  "ringCirc side childInfo = 2 * pi * ringR side childInfo"

text \<open>The callback of \<^verbatim>\<open>childInfo.map\<close> that builds \<^verbatim>\<open>placedChildren\<close>, with the
  running \<^verbatim>\<open>theta\<close> as an accumulator. \<open>rr\<close> and \<open>rc\<close> are \<^verbatim>\<open>ringR\<close> and
  \<^verbatim>\<open>ringCirc\<close>.\<close>

fun placeChildren :: "string \<Rightarrow> real \<Rightarrow> real \<Rightarrow> real \<Rightarrow> real \<Rightarrow> ChildInfo list \<Rightarrow> ChildPlaced list" where
  "placeChildren focusName side rr rc theta [] = []"
| "placeChildren focusName side rr rc theta (it # rest) =
     (let arcLen = 2 * ci_r it + gapC side;
          delta = (arcLen / rc) * 2 * pi;
          mid = theta + delta / 2;
          x = side / 2 + rr * cos mid;
          y = side / 2 + rr * sin mid
      in \<lparr>b_id = tn_name (ci_node it), b_name = tn_name (ci_node it), b_depth = 1,
          b_data = ci_node it, b_r = ci_r it, b_x = x, b_y = y,
          b_parentId = Some focusName, angle = mid\<rparr>
         # placeChildren focusName side rr rc (theta + delta) rest)"

definition placedChildren :: "TreeNode \<Rightarrow> real \<Rightarrow> ChildPlaced list" where
  "placedChildren focus side =
     (let childInfo = map (childInfoOf side) (childrenOrEmpty focus)
      in placeChildren (tn_name focus) side (ringR side childInfo) (ringCirc side childInfo) 0 childInfo)"

definition gapG :: "real \<Rightarrow> real" where
  "gapG side = clamp (side * 0.006) 4 12"

definition minGrandR :: "real \<Rightarrow> real" where
  "minGrandR side = clamp (side * 0.042) 13 32"

definition arcSpan :: real where
  "arcSpan = (150 * pi) / 180"

definition safety :: real where
  "safety = 6"

text \<open>\<^verbatim>\<open>Array.prototype.findIndex\<close>: the first index whose element satisfies the
  predicate, or \<open>-1\<close>.\<close>

fun findIndexFrom :: "int \<Rightarrow> ('a \<Rightarrow> bool) \<Rightarrow> 'a list \<Rightarrow> int" where
  "findIndexFrom i P [] = -1"
| "findIndexFrom i P (x # xs) = (if P x then i else findIndexFrom (i + 1) P xs)"

definition findIndex :: "('a \<Rightarrow> bool) \<Rightarrow> 'a list \<Rightarrow> int" where
  "findIndex P xs = findIndexFrom 0 P xs"

text \<open>The remainder operator \<^verbatim>\<open>%\<close> on integers: the sign follows the dividend.\<close>

definition jsRem :: "int \<Rightarrow> int \<Rightarrow> int" where
  "jsRem a b = (if a < 0 then - ((- a) mod \<bar>b\<bar>) else a mod \<bar>b\<bar>)"

text \<open>Reading an array at an index: \<^verbatim>\<open>undefined\<close> outside the array.\<close>

definition elemAt :: "'a list \<Rightarrow> int \<Rightarrow> 'a option" where
  "elemAt xs i = (if 0 \<le> i \<and> i < int (length xs) then Some (xs ! nat i) else None)"

definition hypot :: "real \<Rightarrow> real \<Rightarrow> real" where
  "hypot a b = sqrt (a\<^sup>2 + b\<^sup>2)"

text \<open>\<^verbatim>\<open>neighborRingCap\<close>. The result \<^term>\<open>None\<close> is \<^verbatim>\<open>Infinity\<close>. Reading
  \<^verbatim>\<open>prev.x\<close> or \<^verbatim>\<open>next.x\<close> of an \<^verbatim>\<open>undefined\<close> neighbour would throw a
  TypeError.\<close>

definition neighborRingCap :: "ChildPlaced list \<Rightarrow> ChildPlaced \<Rightarrow> real \<Rightarrow> error + real option" where
  "neighborRingCap placed ch rG =
     (let childCount = int (length placed) in
      if childCount \<le> 1 then Inr None
      else
        (let idx = findIndex (\<lambda>p. b_id p = b_id ch) placed in
         case (elemAt placed (jsRem (idx - 1 + childCount) childCount),
               elemAt placed (jsRem (idx + 1) childCount)) of
           (Some prev, Some next) \<Rightarrow>
             (let distPrev = hypot (b_x ch - b_x prev) (b_y ch - b_y prev);
                  distNext = hypot (b_x ch - b_x next) (b_y ch - b_y next);
                  capPrev = distPrev - b_r prev - rG - safety;
                  capNext = distNext - b_r next - rG - safety
              in Inr (Some (max 0 (min capPrev capNext))))
         | _ \<Rightarrow> Inl TypeError))"

text \<open>The part of the loop body that settles, for one child with \<open>N > 0\<close> grandchildren,
  the grandchild radius \<^verbatim>\<open>rG\<close> and the bounds \<^verbatim>\<open>ringGmin\<close>, \<^verbatim>\<open>ringGmax\<close>
  (after the one optional shrink).\<close>

definition ringBounds :: "real \<Rightarrow> ChildPlaced list \<Rightarrow> ChildPlaced \<Rightarrow> nat \<Rightarrow> error + real \<times> real \<times> real option" where
  "ringBounds side placed ch N =
     (let rG = minGrandR side;
          neededArcLen = real N * (2 * rG + gapG side);
          ringGmin = max (neededArcLen / arcSpan) (b_r ch + rG + safety)
      in case neighborRingCap placed ch rG of
           Inl e \<Rightarrow> Inl e
         | Inr ringGmax \<Rightarrow>
             (case ringGmax of
                None \<Rightarrow> Inr (rG, ringGmin, ringGmax)
              | Some cap \<Rightarrow>
                  if cap < ringGmin \<and> cap > 0 then
                    (let ratio = clamp (cap / ringGmin) 0.65 1;
                         rG2 = max 6 (rG * ratio);
                         needed2 = real N * (2 * rG2 + gapG side);
                         ringGmin2 = max (needed2 / arcSpan) (b_r ch + rG2 + safety)
                     in case neighborRingCap placed ch rG2 of
                          Inl e \<Rightarrow> Inl e
                        | Inr ringGmax2 \<Rightarrow> Inr (rG2, ringGmin2, ringGmax2))
                  else Inr (rG, ringGmin, ringGmax)))"

text \<open>The final ring radius \<^verbatim>\<open>ringG\<close>.\<close>

definition ringGOf :: "real \<Rightarrow> real option \<Rightarrow> real" where
  "ringGOf ringGmin ringGmax =
     (let ringG = max ringGmin 0
      in case ringGmax of None \<Rightarrow> ringG | Some cap \<Rightarrow> min ringG (max cap ringGmin))"

text \<open>One iteration of the loop over \<^verbatim>\<open>placedChildren\<close>: the grandchildren pushed for
  the child \<open>ch\<close>.\<close>

definition placeGrandchildren :: "real \<Rightarrow> ChildPlaced list \<Rightarrow> ChildPlaced \<Rightarrow> error + PlacedBubble list" where
  "placeGrandchildren side placed ch =
     (let gcNodes = childrenOrEmpty (b_data ch);
          N = length gcNodes
      in if N = 0 then Inr []
         else case ringBounds side placed ch N of
           Inl e \<Rightarrow> Inl e
         | Inr (rG, ringGmin, ringGmax) \<Rightarrow>
             (let ringG = ringGOf ringGmin ringGmax;
                  stepTheta = (2 * rG + gapG side) / ringG;
                  totalTheta = (real N - 1) * stepTheta;
                  thetaStart = angle ch - totalTheta / 2
              in Inr (map (\<lambda>i.
                     (let theta = thetaStart + real i * stepTheta;
                          gx = b_x ch + ringG * cos theta;
                          gy = b_y ch + ringG * sin theta
                      in \<lparr>b_id = b_id ch @ ''::'' @ tn_name (gcNodes ! i),
                          b_name = tn_name (gcNodes ! i), b_depth = 2,
                          b_data = gcNodes ! i, b_r = rG, b_x = gx, b_y = gy,
                          b_parentId = Some (b_id ch)\<rparr>))
                   [0..<N])))"

text \<open>The loop over \<^verbatim>\<open>placedChildren\<close>; the result keeps one list per child, in loop
  order, and \<^verbatim>\<open>placedGrandchildren\<close> is their concatenation.\<close>

fun grandchildrenOf :: "real \<Rightarrow> ChildPlaced list \<Rightarrow> ChildPlaced list \<Rightarrow> error + PlacedBubble list list" where
  "grandchildrenOf side placed [] = Inr []"
| "grandchildrenOf side placed (ch # rest) =
     (case placeGrandchildren side placed ch of
        Inl e \<Rightarrow> Inl e
      | Inr gs \<Rightarrow>
          (case grandchildrenOf side placed rest of
             Inl e \<Rightarrow> Inl e
           | Inr gss \<Rightarrow> Inr (gs # gss)))"

definition parentPlaced :: "TreeNode \<Rightarrow> real \<Rightarrow> PlacedBubble" where
  "parentPlaced focus side =
     \<lparr>b_id = tn_name focus, b_name = tn_name focus, b_depth = 0, b_data = focus,
      b_r = rParent side, b_x = side / 2, b_y = side / 2, b_parentId = None\<rparr>"

text \<open>A placed child as it appears in \<^verbatim>\<open>nodes\<close>, typed \<^verbatim>\<open>PlacedBubble\<close>.\<close>

definition asBubble :: "ChildPlaced \<Rightarrow> PlacedBubble" where
  "asBubble ch =
     \<lparr>b_id = b_id ch, b_name = b_name ch, b_depth = b_depth ch, b_data = b_data ch,
      b_r = b_r ch, b_x = b_x ch, b_y = b_y ch, b_parentId = b_parentId ch\<rparr>"

definition computeBubblePackingLayout :: "TreeNode \<Rightarrow> real \<Rightarrow> error + Layout" where
  "computeBubblePackingLayout focus side =
     (let placed = placedChildren focus side
      in case grandchildrenOf side placed placed of
           Inl e \<Rightarrow> Inl e
         | Inr gss \<Rightarrow>
             Inr \<lparr>nodes = parentPlaced focus side # map asBubble placed @ concat gss,
                  l_side = side\<rparr>)"

section \<open>Auxiliary notions for the layout\<close>

text \<open>The bubble pushed for grandchild number \<open>i\<close> of \<open>ch\<close>, for a radius and a ring radius.\<close>

definition grandBubble :: "real \<Rightarrow> ChildPlaced \<Rightarrow> real \<Rightarrow> real \<Rightarrow> nat \<Rightarrow> PlacedBubble" where
  "grandBubble side ch rG ringG i =
     (let gcNodes = childrenOrEmpty (b_data ch);
          stepTheta = (2 * rG + gapG side) / ringG;
          theta = angle ch - (real (length gcNodes) - 1) * stepTheta / 2 + real i * stepTheta
      in \<lparr>b_id = b_id ch @ ''::'' @ tn_name (gcNodes ! i),
          b_name = tn_name (gcNodes ! i), b_depth = 2,
          b_data = gcNodes ! i, b_r = rG,
          b_x = b_x ch + ringG * cos theta, b_y = b_y ch + ringG * sin theta,
          b_parentId = Some (b_id ch)\<rparr>)"

definition leaf :: "string \<Rightarrow> TreeNode" where
  "leaf n = TreeNode n None None None None (Some [])"

definition branch :: "string \<Rightarrow> TreeNode list \<Rightarrow> TreeNode" where
  "branch n cs = TreeNode n None None None None (Some cs)"

text \<open>The node list of a result; empty for a failed call.\<close>

definition layoutNodes :: "error + Layout \<Rightarrow> PlacedBubble list" where
  "layoutNodes res = (case res of Inl e \<Rightarrow> [] | Inr l \<Rightarrow> nodes l)"

definition expectedIds :: "TreeNode \<Rightarrow> string list" where
  "expectedIds focus =
     tn_name focus # map tn_name (childrenOrEmpty focus)
       @ concat (map (\<lambda>c. map (\<lambda>g. tn_name c @ ''::'' @ tn_name g) (childrenOrEmpty c))
                   (childrenOrEmpty focus))"

section \<open>Properties of nestFlatToTree\<close>

subsection \<open>The first loop: validation and the name table\<close>

lemma indexItems_Inl_iff:
  "(\<exists>e. indexItems items m = Inl e) \<longleftrightarrow> (\<exists>it \<in> set items. level it < 1 \<or> level it > 6)"
  by (induction items arbitrary: m) auto

lemma nestFlatToTree_Inl_iff:
  "(\<exists>e. nestFlatToTree items = Inl e) \<longleftrightarrow> (\<exists>e. indexItems items [] = Inl e)"
  by (auto simp: nestFlatToTree_def split: sum.splits prod.splits)

lemma indexItems_error_kind:
  "indexItems items m = Inl e \<Longrightarrow>
     \<exists>it \<in> set items. e = LevelOutOfRange (name it) (level it) \<and> (level it < 1 \<or> level it > 6)"
  by (induction items arbitrary: m) (auto split: if_splits)

lemma indexItems_ok: "levelsOk items \<Longrightarrow> indexItems items m = Inr (byNameOf items m)"
  by (induction items arbitrary: m) (auto simp: levelsOk_def byNameOf_def)

lemma distinct_byNameOf: "distinct (map fst m) \<Longrightarrow> distinct (map fst (byNameOf items m))"
  by (induction items arbitrary: m) (auto simp: byNameOf_def distinct_update)

lemma keys_byNameOf: "fst ` set (byNameOf items m) = fst ` set m \<union> name ` set items"
  by (induction items arbitrary: m) (auto simp: byNameOf_def dom_update)

lemma map_of_byNameOf_notin:
  "n \<notin> name ` set items \<Longrightarrow> map_of (byNameOf items m) n = map_of m n"
  by (induction items arbitrary: m) (auto simp: byNameOf_def update_conv')

lemma map_of_byNameOf_last:
  "n = name r \<Longrightarrow> name r \<notin> name ` set post \<Longrightarrow>
     map_of (byNameOf (pre @ r # post) m) n = Some (newObj r)"
  using map_of_byNameOf_notin[of "name r" post "AList.update (name r) (newObj r) (byNameOf pre m)"]
  by (simp add: byNameOf_def update_conv')

lemma map_of_byNameOf_None:
  "map_of (byNameOf items []) n = None \<longleftrightarrow> n \<notin> name ` set items"
  using keys_byNameOf[of items "[]"] by (simp add: map_of_eq_None_iff)

lemma set_update_cases: "e \<in> set (AList.update k v al) \<Longrightarrow> e = (k, v) \<or> e \<in> set al"
  by (induction al) (auto split: if_splits)

lemma children_byNameOf:
  "\<forall>e \<in> set m. children (snd e) = [] \<Longrightarrow> \<forall>e \<in> set (byNameOf items m). children (snd e) = []"
proof (induction items arbitrary: m)
  case Nil then show ?case by (simp add: byNameOf_def)
next
  case (Cons it items)
  have "\<forall>e \<in> set (AList.update (name it) (newObj it) m). children (snd e) = []"
    using Cons.prems by (auto dest!: set_update_cases simp: newObj_def)
  from Cons.IH[OF this] show ?case by (simp add: byNameOf_def)
qed

subsection \<open>The second loop: where every object is pushed\<close>

lemma map_of_map_keyed:
  "map_of (map (\<lambda>(k, v). (k, f k v)) m) k = map_option (f k) (map_of m k)"
  by (induction m) auto

lemma decorate_Nil: "decorate [] bn = bn"
  by (simp add: decorate_def split_def)

lemma map_fst_decorate: "map fst (decorate ks bn) = map fst bn"
  by (simp add: decorate_def split_def comp_def)

lemma map_of_decorate:
  "map_of (decorate ks bn) k =
     map_option (\<lambda>obj. obj\<lparr>children := children obj @ filter (\<lambda>c. target bn c = Some k) ks\<rparr>) (map_of bn k)"
  unfolding decorate_def by (simp add: map_of_map_keyed)

lemma lookupParent_decorate:
  "lookupParent (decorate ks bn) (obj\<lparr>children := cs\<rparr>) = lookupParent bn obj"
  by (simp add: lookupParent_def map_of_decorate split: option.splits)

lemma update_as_map:
  "distinct (map fst m) \<Longrightarrow> map_of m k = Some v \<Longrightarrow>
     AList.update k w m = map (\<lambda>(k', v'). if k' = k then (k', w) else (k', v')) m"
proof (induction m)
  case Nil then show ?case by simp
next
  case (Cons p m)
  show ?case
  proof (cases "fst p = k")
    case True
    with Cons.prems have "k \<notin> fst ` set m" by auto
    then have "map (\<lambda>(k', v'). if k' = k then (k', w) else (k', v')) m = m"
      by (induction m) auto
    with True show ?thesis by (cases p) simp
  next
    case False
    with Cons show ?thesis by (cases p) auto
  qed
qed

lemma pushChild_decorate:
  assumes "distinct (map fst bn)" "map_of bn p \<noteq> None" "target bn k = Some p"
  shows "pushChild p k (decorate ks bn) = decorate (ks @ [k]) bn"
proof -
  from assms(2) obtain obj where obj: "map_of bn p = Some obj" by auto
  have d: "distinct (map fst (decorate ks bn))" using assms(1) by (simp add: map_fst_decorate)
  show ?thesis
    unfolding pushChild_def map_of_decorate obj
    apply simp
    apply (subst update_as_map[OF d])
     apply (simp add: map_of_decorate obj)
    using assms(1) obj
    apply (auto simp: decorate_def assms(3) dest: eq_key_imp_eq_value)
    done
qed

lemma decorate_snoc_other:
  "target bn k = None \<Longrightarrow> decorate (ks @ [k]) bn = decorate ks bn"
  by (simp add: decorate_def)

lemma target_Some_dom: "target bn k = Some p \<Longrightarrow> map_of bn p \<noteq> None"
  by (auto simp: target_def lookupParent_def split: option.splits if_splits)

lemma attachNode_decorate:
  assumes "distinct (map fst bn)" "map_of bn k \<noteq> None"
  shows "attachNode k (decorate ks bn, filter (\<lambda>c. target bn c = None) ks) =
           (decorate (ks @ [k]) bn, filter (\<lambda>c. target bn c = None) (ks @ [k]))"
proof -
  from assms(2) obtain node where node: "map_of bn k = Some node" by auto
  show ?thesis
  proof (cases "target bn k")
    case None
    then show ?thesis using node
      by (auto simp: map_of_decorate lookupParent_decorate decorate_snoc_other target_def
          split: option.splits if_splits)
  next
    case (Some p)
    then have lv: "level node \<noteq> 1" and lp: "lookupParent bn node = Some p"
      using node by (auto simp: target_def split: if_splits)
    show ?thesis using node lv lp Some
      by (simp add: map_of_decorate lookupParent_decorate
            pushChild_decorate[OF assms(1) target_Some_dom[OF Some] Some])
  qed
qed

lemma fold_attachNode:
  assumes "distinct (map fst bn)" "\<forall>k \<in> set ks. map_of bn k \<noteq> None"
  shows "fold attachNode ks (decorate done bn, filter (\<lambda>c. target bn c = None) done) =
           (decorate (done @ ks) bn, filter (\<lambda>c. target bn c = None) (done @ ks))"
  using assms(2)
proof (induction ks arbitrary: "done")
  case Nil then show ?case by simp
next
  case (Cons k ks)
  have "fold attachNode (k # ks) (decorate done bn, filter (\<lambda>c. target bn c = None) done)
        = fold attachNode ks (decorate (done @ [k]) bn, filter (\<lambda>c. target bn c = None) (done @ [k]))"
    using attachNode_decorate[OF assms(1), of k "done"] Cons.prems by simp
  also have "\<dots> = (decorate ((done @ [k]) @ ks) bn, filter (\<lambda>c. target bn c = None) ((done @ [k]) @ ks))"
    using Cons.IH[of "done @ [k]"] Cons.prems by simp
  finally show ?case by simp
qed

lemma nestFlatToTree_ok:
  assumes "levelsOk items"
  defines "bn \<equiv> byNameOf items []"
  shows "nestFlatToTree items =
           Inr \<lparr>root_name = ''root'',
                root_children = filter (\<lambda>c. target bn c = None) (map fst bn),
                objects = decorate (map fst bn) bn\<rparr>"
proof -
  have d: "distinct (map fst bn)" unfolding bn_def by (rule distinct_byNameOf) simp
  have k: "\<forall>k \<in> set (map fst bn). map_of bn k \<noteq> None"
    by (auto simp: map_of_eq_None_iff)
  have "fold attachNode (map fst bn) (bn, []) =
          (decorate (map fst bn) bn, filter (\<lambda>c. target bn c = None) (map fst bn))"
    using fold_attachNode[OF d k, of "[]"] by (simp add: decorate_Nil)
  then show ?thesis
    using indexItems_ok[OF assms(1), of "[]"] by (simp add: nestFlatToTree_def bn_def)
qed

subsection \<open>Every object is referenced exactly once\<close>

lemma count_concat_filter_keys:
  assumes "distinct ps"
  shows "count_list (concat (map (\<lambda>p. filter (\<lambda>c. tg c = Some p) ks) ps)) c =
           (case tg c of None \<Rightarrow> 0 | Some p \<Rightarrow> if p \<in> set ps then count_list ks c else 0)"
  using assms
proof (induction ps)
  case Nil then show ?case by (simp split: option.splits)
next
  case (Cons p ps)
  have f: "count_list (filter (\<lambda>c. tg c = Some p) ks) c =
             (if tg c = Some p then count_list ks c else 0)"
    by (induction ks) auto
  show ?case using Cons by (auto simp: f split: option.splits)
qed

lemma count_filter_None:
  "count_list (filter (\<lambda>c. tg c = None) ks) c = (if tg c = None then count_list ks c else 0)"
  by (induction ks) auto

lemma distinct_count_list:
  "distinct xs \<Longrightarrow> count_list xs c = (if c \<in> set xs then 1 else 0)"
  by (induction xs) auto

lemma allRefs_count:
  assumes "levelsOk items" "nestFlatToTree items = Inr t"
  shows "count_list (allRefs t) c = (if c \<in> name ` set items then 1 else 0)"
proof -
  define bn where "bn = byNameOf items []"
  have d: "distinct (map fst bn)" unfolding bn_def by (rule distinct_byNameOf) simp
  have t: "t = \<lparr>root_name = ''root'',
                root_children = filter (\<lambda>c. target bn c = None) (map fst bn),
                objects = decorate (map fst bn) bn\<rparr>"
    using nestFlatToTree_ok[OF assms(1)] assms(2) by (simp add: bn_def)
  have ch: "map (\<lambda>e. children (snd e)) (decorate (map fst bn) bn) =
              map (\<lambda>p. filter (\<lambda>c. target bn c = Some p) (map fst bn)) (map fst bn)"
  proof -
    have "\<forall>e \<in> set bn. children (snd e) = []"
      unfolding bn_def by (rule children_byNameOf) simp
    then show ?thesis by (auto simp: decorate_def split_def)
  qed
  have keys: "set (map fst bn) = name ` set items"
    using keys_byNameOf[of items "[]"] by (simp add: bn_def)
  have cnt: "count_list (map fst bn) c = (if c \<in> name ` set items then 1 else 0)"
    using distinct_count_list[OF d, of c] keys by simp
  have dom: "target bn c = Some p \<Longrightarrow> p \<in> set (map fst bn)" for p
    using target_Some_dom[of bn c p] by (auto simp: map_of_eq_None_iff)
  have c1: "count_list (filter (\<lambda>c. target bn c = None) (map fst bn)) c =
              (if target bn c = None then count_list (map fst bn) c else 0)"
    by (rule count_filter_None)
  have c2: "count_list (concat (map (\<lambda>e. children (snd e)) (decorate (map fst bn) bn))) c =
              (case target bn c of None \<Rightarrow> 0
               | Some p \<Rightarrow> if p \<in> set (map fst bn) then count_list (map fst bn) c else 0)"
    unfolding ch by (rule count_concat_filter_keys[OF d])
  have "count_list (allRefs t) c = count_list (map fst bn) c"
    unfolding allRefs_def t using dom
    by (simp only: count_list_append RootRef.simps c1 c2) (auto split: option.splits)
  then show ?thesis by (simp only: cnt)
qed

subsection \<open>Reachability from the root\<close>

lemma map_of_byNameOf_distinct:
  assumes "distinct (map name items)" "c \<in> set items"
  shows "map_of (byNameOf items []) (name c) = Some (newObj c)"
proof -
  from assms(2) obtain pre post where sp: "items = pre @ c # post" by (auto dest: split_list)
  with assms(1) have "name c \<notin> name ` set post" by auto
  then show ?thesis unfolding sp by (intro map_of_byNameOf_last) simp_all
qed

lemma objects_lookup:
  assumes "levelsOk items" "nestFlatToTree items = Inr t"
  shows "map_of (objects t) k =
           map_option (\<lambda>obj. obj\<lparr>children := children obj @
                filter (\<lambda>c. target (byNameOf items []) c = Some k) (map fst (byNameOf items []))\<rparr>)
             (map_of (byNameOf items []) k)"
  using nestFlatToTree_ok[OF assms(1)] assms(2) by (auto simp: map_of_decorate)

lemma root_children_eq:
  assumes "levelsOk items" "nestFlatToTree items = Inr t"
  shows "root_children t =
           filter (\<lambda>c. target (byNameOf items []) c = None) (map fst (byNameOf items []))"
  using nestFlatToTree_ok[OF assms(1)] assms(2) by auto

lemma keys_eq: "set (map fst (byNameOf items [])) = name ` set items"
  using keys_byNameOf[of items "[]"] by simp

lemma all_inTree:
  assumes ok: "levelsOk items" and dist: "distinct (map name items)"
    and rank: "\<forall>c \<in> set items. \<forall>p \<in> set items.
                 level c \<noteq> 1 \<and> parent c = Some (name p) \<longrightarrow> rank (name p) < (rank (name c) :: nat)"
    and t: "nestFlatToTree items = Inr t"
  shows "c \<in> set items \<Longrightarrow> inTree t (name c)"
proof (induction "rank (name c)" arbitrary: c rule: less_induct)
  case less
  define bn where "bn = byNameOf items []"
  have c: "map_of bn (name c) = Some (newObj c)"
    unfolding bn_def by (rule map_of_byNameOf_distinct[OF dist less.prems])
  have key: "name c \<in> set (map fst bn)"
    unfolding bn_def keys_eq using less.prems by simp
  show ?case
  proof (cases "target bn (name c)")
    case None
    then have "name c \<in> set (root_children t)"
      using key unfolding root_children_eq[OF ok t] bn_def by simp
    then show ?thesis by (rule inTree.root_child)
  next
    case (Some p)
    then have lv: "level c \<noteq> 1" and par: "parent c = Some p" and pdom: "map_of bn p \<noteq> None"
      using c by (auto simp: target_def lookupParent_def newObj_def split: if_splits option.splits)
    from pdom have "p \<in> name ` set items"
      unfolding bn_def by (simp add: map_of_byNameOf_None)
    then obtain p' where p': "p' \<in> set items" "name p' = p" by auto
    with rank less.prems lv par have "rank (name p') < rank (name c)" by blast
    then have inp: "inTree t p" using less.hyps[OF _ p'(1)] p'(2) by simp
    from pdom obtain pobj where pobj: "map_of bn p = Some pobj" by auto
    have "map_of (objects t) p = Some (pobj\<lparr>children := children pobj @
                filter (\<lambda>c. target bn c = Some p) (map fst bn)\<rparr>)"
      using objects_lookup[OF ok t, of p] pobj by (simp add: bn_def)
    moreover have "name c \<in> set (children (pobj\<lparr>children := children pobj @
                filter (\<lambda>c. target bn c = Some p) (map fst bn)\<rparr>))"
      using key Some by simp
    ultimately show ?thesis using inp by (rule inTree.child[rotated])
  qed
qed

lemma inTree_is_ref: "inTree t k \<Longrightarrow> k \<in> set (allRefs t)"
proof (induction rule: inTree.induct)
  case (root_child k)
  then show ?case by (simp add: allRefs_def)
next
  case (child p obj k)
  from child.hyps(2) have "(p, obj) \<in> set (objects t)" by (rule map_of_SomeD)
  with child.hyps(3) have "\<exists>e \<in> set (objects t). k \<in> set (children (snd e))"
    by (intro bexI[of _ "(p, obj)"]) simp_all
  then show ?case by (simp add: allRefs_def)
qed

lemma count_list_pos_iff: "count_list xs c \<noteq> 0 \<longleftrightarrow> c \<in> set xs"
  by (induction xs) auto

lemma allRefs_set:
  assumes "levelsOk items" "nestFlatToTree items = Inr t"
  shows "set (allRefs t) = name ` set items"
proof -
  have "c \<in> set (allRefs t) \<longleftrightarrow> c \<in> name ` set items" for c
    using allRefs_count[OF assms, of c] count_list_pos_iff[of "allRefs t" c]
    by (simp split: if_splits)
  then show ?thesis by blast
qed

lemma allRefs_mset:
  assumes "levelsOk items" "nestFlatToTree items = Inr t" "distinct (map name items)"
  shows "mset (allRefs t) = mset (map name items)"
proof (rule multiset_eqI)
  fix c
  have "count_list (map name items) c = (if c \<in> name ` set items then 1 else 0)"
    using distinct_count_list[OF assms(3), of c] by simp
  then show "count (mset (allRefs t)) c = count (mset (map name items)) c"
    using allRefs_count[OF assms(1,2), of c] by (simp only: count_mset)
qed

lemmas eval_simps = nestFlatToTree_def mkItem_def mkObj_def newObj_def lookupParent_def pushChild_def

subsection \<open>Duplicate names: the surviving records\<close>

lemma survivors_split:
  "c \<in> set (survivors items) \<Longrightarrow> \<exists>pre post. items = pre @ c # post \<and> name c \<notin> name ` set post"
proof (induction items)
  case Nil then show ?case by simp
next
  case (Cons it items)
  show ?case
  proof (cases "c \<in> set (survivors items)")
    case True
    from Cons.IH[OF this] obtain pre post where "items = pre @ c # post" "name c \<notin> name ` set post"
      by blast
    then have "it # items = (it # pre) @ c # post \<and> name c \<notin> name ` set post" by simp
    then show ?thesis by blast
  next
    case False
    with Cons.prems have "c = it" "name it \<notin> name ` set items" by (auto split: if_splits)
    then have "it # items = [] @ c # items \<and> name c \<notin> name ` set items" by simp
    then show ?thesis by blast
  qed
qed

lemma survivors_last:
  "name r \<notin> name ` set post \<Longrightarrow> r \<in> set (survivors (pre @ r # post))"
  by (induction pre) auto

lemma survivors_names: "name ` set (survivors items) = name ` set items"
  by (induction items) auto

lemma survivors_distinct: "distinct (map name items) \<Longrightarrow> survivors items = items"
  by (induction items) auto

lemma map_of_byNameOf_survivor:
  assumes "c \<in> set (survivors items)"
  shows "map_of (byNameOf items []) (name c) = Some (newObj c)"
proof -
  from survivors_split[OF assms] obtain pre post where
    sp: "items = pre @ c # post" and l: "name c \<notin> name ` set post" by blast
  show ?thesis unfolding sp by (rule map_of_byNameOf_last[OF refl l])
qed

lemma survivor_inTree:
  assumes ok: "levelsOk items"
    and rank: "\<forall>c \<in> set (survivors items). \<forall>p \<in> set (survivors items).
                 level c \<noteq> 1 \<and> parent c = Some (name p) \<longrightarrow> rank (name p) < (rank (name c) :: nat)"
    and t: "nestFlatToTree items = Inr t"
  shows "c \<in> set (survivors items) \<Longrightarrow> inTree t (name c)"
proof (induction "rank (name c)" arbitrary: c rule: less_induct)
  case less
  define bn where "bn = byNameOf items []"
  have c: "map_of bn (name c) = Some (newObj c)"
    unfolding bn_def by (rule map_of_byNameOf_survivor[OF less.prems])
  have "name c \<in> name ` set items" using less.prems survivors_names[of items] by blast
  then have key: "name c \<in> set (map fst bn)" unfolding bn_def keys_eq .
  show ?case
  proof (cases "target bn (name c)")
    case None
    then have "name c \<in> set (root_children t)"
      using key unfolding root_children_eq[OF ok t] bn_def by simp
    then show ?thesis by (rule inTree.root_child)
  next
    case (Some p)
    then have lv: "level c \<noteq> 1" and par: "parent c = Some p" and pdom: "map_of bn p \<noteq> None"
      using c by (auto simp: target_def lookupParent_def newObj_def split: if_splits option.splits)
    from pdom have "p \<in> name ` set items"
      unfolding bn_def by (simp add: map_of_byNameOf_None)
    then have "p \<in> name ` set (survivors items)" by (simp only: survivors_names)
    then obtain p' where p': "p' \<in> set (survivors items)" "name p' = p" by auto
    with rank less.prems lv par have "rank (name p') < rank (name c)" by blast
    then have inp: "inTree t p" using less.hyps[OF _ p'(1)] p'(2) by simp
    from pdom obtain pobj where pobj: "map_of bn p = Some pobj" by auto
    have "map_of (objects t) p = Some (pobj\<lparr>children := children pobj @
                filter (\<lambda>c. target bn c = Some p) (map fst bn)\<rparr>)"
      using objects_lookup[OF ok t, of p] pobj by (simp add: bn_def)
    moreover have "name c \<in> set (children (pobj\<lparr>children := children pobj @
                filter (\<lambda>c. target bn c = Some p) (map fst bn)\<rparr>))"
      using key Some by simp
    ultimately show ?thesis using inp by (rule inTree.child[rotated])
  qed
qed

subsection \<open>Facts about single records\<close>

lemma levelsOk_iff: "levelsOk items \<longleftrightarrow> (\<forall>it \<in> set items. 1 \<le> level it \<and> level it \<le> 6)"
  by (simp add: levelsOk_def list_all_iff)

lemma filter_key_single:
  "distinct (map fst m) \<Longrightarrow> map_of m k = Some v \<Longrightarrow> filter (\<lambda>e. fst e = k) m = [(k, v)]"
proof (induction m)
  case Nil then show ?case by simp
next
  case (Cons p m)
  show ?case
  proof (cases "fst p = k")
    case True
    with Cons.prems have "k \<notin> fst ` set m" by auto
    then have "filter (\<lambda>e. fst e = k) m = []" by (auto simp: filter_empty_conv)
    with True Cons.prems show ?thesis by (cases p) simp
  next
    case False
    with Cons show ?thesis by (cases p) auto
  qed
qed

lemma objects_distinct:
  assumes "levelsOk items" "nestFlatToTree items = Inr t"
  shows "distinct (map fst (objects t))"
proof -
  have "distinct (map fst (byNameOf items []))" by (rule distinct_byNameOf) simp
  then show ?thesis
    using nestFlatToTree_ok[OF assms(1)] assms(2) by (auto simp: map_fst_decorate)
qed

lemma last_record_object:
  assumes "levelsOk (pre @ r # post)" "name r \<notin> name ` set post"
    and "nestFlatToTree (pre @ r # post) = Inr t"
  shows "\<exists>ob. map_of (objects t) (name r) = Some ob \<and> name ob = name r \<and> level ob = level r \<and>
           parent ob = parent r \<and> source ob = source r \<and> value' ob = value' r"
  using objects_lookup[OF assms(1,3), of "name r"]
    map_of_byNameOf_last[OF refl assms(2), of pre "[]"]
  by (simp add: newObj_def)

subsection \<open>Claim C4: level validation\<close>

text \<open>
  Claim C4. \<^verbatim>\<open>nestFlatToTree\<close> throws its level error exactly when some input record has a
  level below 1 or above 6, and it returns a tree exactly when every level lies in 1..6. The
  error thrown is the only one the function has (\<^const>\<open>LevelOutOfRange\<close>, the
  ValidationError of the specification).
\<close>

theorem nestFlatToTree_level_validation:
  "((\<exists>n l. nestFlatToTree items = Inl (LevelOutOfRange n l)) \<longleftrightarrow>
      (\<exists>it \<in> set items. level it < 1 \<or> 6 < level it)) \<and>
   ((\<exists>t. nestFlatToTree items = Inr t) \<longleftrightarrow>
      (\<forall>it \<in> set items. 1 \<le> level it \<and> level it \<le> 6))"
proof -
  have a: "(\<exists>e. nestFlatToTree items = Inl e) \<longleftrightarrow> (\<exists>it \<in> set items. level it < 1 \<or> 6 < level it)"
    by (simp only: nestFlatToTree_Inl_iff indexItems_Inl_iff)
  have b: "nestFlatToTree items = Inl e \<Longrightarrow> \<exists>n l. e = LevelOutOfRange n l" for e
  proof -
    assume "nestFlatToTree items = Inl e"
    then have "indexItems items [] = Inl e"
      by (auto simp: nestFlatToTree_def split: sum.splits prod.splits)
    from indexItems_error_kind[OF this] show ?thesis by blast
  qed
  have c: "(\<exists>t. nestFlatToTree items = Inr t) \<longleftrightarrow> \<not> (\<exists>e. nestFlatToTree items = Inl e)"
    by (cases "nestFlatToTree items") auto
  show ?thesis
  proof (intro conjI)
    show "(\<exists>n l. nestFlatToTree items = Inl (LevelOutOfRange n l)) \<longleftrightarrow>
      (\<exists>it \<in> set items. level it < 1 \<or> 6 < level it)"
      using a b by blast
    show "(\<exists>t. nestFlatToTree items = Inr t) \<longleftrightarrow>
      (\<forall>it \<in> set items. 1 \<le> level it \<and> level it \<le> 6)"
      unfolding c a by auto
  qed
qed

text \<open>
  Both directions of C4 at concrete inputs: a record of level 7 makes the call fail with the
  level error for that record, and the same input with level 6 yields the tree
  \<open>root \<rightarrow> A \<rightarrow> B\<close>.
\<close>

theorem nestFlatToTree_level_validation_witness:
  "nestFlatToTree [mkItem ''A'' 1 None, mkItem ''B'' 7 (Some ''A'')] = Inl (LevelOutOfRange ''B'' 7) \<and>
   nestFlatToTree [mkItem ''A'' 1 None, mkItem ''B'' 6 (Some ''A'')] =
     Inr \<lparr>root_name = ''root'', root_children = [''A''],
          objects = [(''A'', mkObj ''A'' 1 None [''B'']), (''B'', mkObj ''B'' 6 (Some ''A'') [])]\<rparr>"
  using nestFlatToTree_level_validation[of "[mkItem ''A'' 1 None, mkItem ''B'' 7 (Some ''A'')]"]
    nestFlatToTree_level_validation[of "[mkItem ''A'' 1 None, mkItem ''B'' 6 (Some ''A'')]"]
  by (simp add: eval_simps)

subsection \<open>Claim C5: node count and ancestor chains\<close>

text \<open>
  Claim C5 as stated fails. Two records with distinct names and valid levels that name each
  other as parent are pushed into each other's \<^verbatim>\<open>children\<close>; neither is pushed into
  \<^verbatim>\<open>roots\<close>. The returned root has no children: the tree under the root has 0 nodes for
  2 input records.
\<close>

theorem nestFlatToTree_cycle_counterexample:
  "nestFlatToTree [mkItem ''A'' 2 (Some ''B''), mkItem ''B'' 2 (Some ''A'')] =
     Inr \<lparr>root_name = ''root'', root_children = [],
          objects = [(''A'', mkObj ''A'' 2 (Some ''B'') [''B'']), (''B'', mkObj ''B'' 2 (Some ''A'') [''A''])]\<rparr>"
  by (simp add: eval_simps)

text \<open>
  Claim C5, amended. For records with levels in 1..6 and pairwise distinct names whose parent
  links are acyclic (some rank decreases from every record of level other than 1 to the record
  its parent names), the call returns a tree in which the nodes reachable from the root are
  exactly the records' names, every record's node is referenced exactly once in the whole
  object graph (by the root or by one parent), and the number of references, which is the
  number of nodes below the root, equals the number of input records.
\<close>

theorem nestFlatToTree_acyclic_complete:
  assumes "levelsOk items" and "distinct (map name items)"
    and "\<forall>c \<in> set items. \<forall>p \<in> set items.
           level c \<noteq> 1 \<and> parent c = Some (name p) \<longrightarrow> rank (name p) < (rank (name c) :: nat)"
  shows "\<exists>t. nestFlatToTree items = Inr t \<and>
           (\<forall>k. inTree t k \<longleftrightarrow> k \<in> name ` set items) \<and>
           mset (allRefs t) = mset (map name items) \<and>
           length (allRefs t) = length items"
proof -
  from assms(1) obtain t where t: "nestFlatToTree items = Inr t"
    using nestFlatToTree_ok by blast
  have "inTree t k \<longleftrightarrow> k \<in> name ` set items" for k
    using all_inTree[OF assms t] inTree_is_ref[of t k] allRefs_set[OF assms(1) t] by blast
  moreover have m: "mset (allRefs t) = mset (map name items)"
    by (rule allRefs_mset[OF assms(1) t assms(2)])
  moreover have "length (allRefs t) = length items"
    using arg_cong[OF m, of size] by simp
  ultimately show ?thesis using t by blast
qed

text \<open>
  The amended C5 on the four records Kusama, Bio, Art, Style of the specification's example,
  ranked by depth.
\<close>

theorem nestFlatToTree_acyclic_complete_witness:
  "\<exists>t. nestFlatToTree [mkItem ''Kusama'' 1 None, mkItem ''Bio'' 2 (Some ''Kusama''),
          mkItem ''Art'' 2 (Some ''Kusama''), mkItem ''Style'' 3 (Some ''Art'')] = Inr t \<and>
     inTree t ''Style'' \<and> length (allRefs t) = 4"
proof -
  let ?items = "[mkItem ''Kusama'' 1 None, mkItem ''Bio'' 2 (Some ''Kusama''),
          mkItem ''Art'' 2 (Some ''Kusama''), mkItem ''Style'' 3 (Some ''Art'')]"
  let ?rank = "\<lambda>n. if n = ''Kusama'' then 0 else if n = ''Style'' then 2 else (1::nat)"
  have h1: "levelsOk ?items" by (simp add: levelsOk_def mkItem_def)
  have h2: "distinct (map name ?items)" by (simp add: mkItem_def)
  have h3: "\<forall>c \<in> set ?items. \<forall>p \<in> set ?items.
           level c \<noteq> 1 \<and> parent c = Some (name p) \<longrightarrow> ?rank (name p) < ?rank (name c)"
    by (simp add: mkItem_def)
  from nestFlatToTree_acyclic_complete[OF h1 h2 h3] obtain t where
    "nestFlatToTree ?items = Inr t" "\<forall>k. inTree t k \<longleftrightarrow> k \<in> name ` set ?items"
    "length (allRefs t) = length ?items" by blast
  then show ?thesis by (intro exI[of _ t]) (simp add: mkItem_def)
qed

subsection \<open>Claim C6: unresolved parents\<close>

text \<open>
  Claim C6. For records with levels in 1..6, let \<open>r\<close> be a record of level above 1, the
  last one carrying its name, whose parent field equals no record's name (or is absent).
  Then the call returns a tree, the node of \<open>r\<close> is a child of the synthetic root, it is
  referenced nowhere else, and it carries the fields of \<open>r\<close>. In particular the input
  \<^verbatim>\<open>[{name:"A", level:2, parent:"Missing"}]\<close> yields the root with the single child
  \<open>A\<close>, which has no children.
\<close>

theorem orphan_becomes_root_child:
  "(levelsOk (pre @ r # post) \<and> name r \<notin> name ` set post \<and> 1 < level r \<and>
    (\<forall>it \<in> set (pre @ r # post). parent r \<noteq> Some (name it)) \<longrightarrow>
      (\<exists>t ob. nestFlatToTree (pre @ r # post) = Inr t \<and>
         name r \<in> set (root_children t) \<and> count_list (allRefs t) (name r) = 1 \<and>
         map_of (objects t) (name r) = Some ob \<and> name ob = name r \<and> level ob = level r \<and>
         parent ob = parent r \<and> source ob = source r \<and> value' ob = value' r)) \<and>
   nestFlatToTree [mkItem ''A'' 2 (Some ''Missing'')] =
     Inr \<lparr>root_name = ''root'', root_children = [''A''],
          objects = [(''A'', mkObj ''A'' 2 (Some ''Missing'') [])]\<rparr>"
proof (intro conjI impI)
  assume h: "levelsOk (pre @ r # post) \<and> name r \<notin> name ` set post \<and> 1 < level r \<and>
    (\<forall>it \<in> set (pre @ r # post). parent r \<noteq> Some (name it))"
  let ?items = "pre @ r # post"
  define bn where "bn = byNameOf ?items []"
  from h obtain t where t: "nestFlatToTree ?items = Inr t"
    using nestFlatToTree_ok by blast
  from h have ok: "levelsOk ?items" and lst: "name r \<notin> name ` set post" by simp_all
  have r: "map_of bn (name r) = Some (newObj r)"
    unfolding bn_def by (rule map_of_byNameOf_last[OF refl lst])
  have "lookupParent bn (newObj r) = None"
  proof (cases "parent r")
    case None then show ?thesis by (simp add: lookupParent_def newObj_def)
  next
    case (Some pn)
    with h have "pn \<notin> name ` set ?items" by force
    then have "map_of bn pn = None" unfolding bn_def map_of_byNameOf_None .
    with Some show ?thesis by (simp add: lookupParent_def newObj_def)
  qed
  then have tg: "target bn (name r) = None" using r by (simp add: target_def)
  have "name r \<in> set (map fst bn)" unfolding bn_def keys_eq by simp
  with tg have "name r \<in> set (root_children t)"
    unfolding root_children_eq[OF ok t] bn_def by simp
  moreover have "count_list (allRefs t) (name r) = 1"
    using allRefs_count[OF ok t, of "name r"] by simp
  ultimately show "\<exists>t ob. nestFlatToTree ?items = Inr t \<and>
         name r \<in> set (root_children t) \<and> count_list (allRefs t) (name r) = 1 \<and>
         map_of (objects t) (name r) = Some ob \<and> name ob = name r \<and> level ob = level r \<and>
         parent ob = parent r \<and> source ob = source r \<and> value' ob = value' r"
    using t last_record_object[OF ok lst t] by blast
next
  show "nestFlatToTree [mkItem ''A'' 2 (Some ''Missing'')] =
     Inr \<lparr>root_name = ''root'', root_children = [''A''],
          objects = [(''A'', mkObj ''A'' 2 (Some ''Missing'') [])]\<rparr>"
    by (simp add: eval_simps)
qed

text \<open>
  Claim C6 on three records: \<open>A\<close> names a missing parent and ends below the root,
  next to \<open>P\<close>.
\<close>

theorem orphan_becomes_root_child_witness:
  "\<exists>t. nestFlatToTree [mkItem ''P'' 1 None, mkItem ''A'' 2 (Some ''Missing''), mkItem ''C'' 3 (Some ''A'')] = Inr t \<and>
     ''A'' \<in> set (root_children t) \<and> count_list (allRefs t) ''A'' = 1"
proof -
  let ?r = "mkItem ''A'' 2 (Some ''Missing'')"
  have h: "levelsOk ([mkItem ''P'' 1 None] @ ?r # [mkItem ''C'' 3 (Some ''A'')]) \<and>
      name ?r \<notin> name ` set [mkItem ''C'' 3 (Some ''A'')] \<and> 1 < level ?r \<and>
      (\<forall>it \<in> set ([mkItem ''P'' 1 None] @ ?r # [mkItem ''C'' 3 (Some ''A'')]). parent ?r \<noteq> Some (name it))"
    by (simp add: levelsOk_def mkItem_def)
  from orphan_becomes_root_child[of "[mkItem ''P'' 1 None]" ?r "[mkItem ''C'' 3 (Some ''A'')]"] h
  obtain t where
    "nestFlatToTree ([mkItem ''P'' 1 None] @ ?r # [mkItem ''C'' 3 (Some ''A'')]) = Inr t"
    "name ?r \<in> set (root_children t)" "count_list (allRefs t) (name ?r) = 1"
    by blast
  then show ?thesis by (intro exI[of _ t]) (simp add: mkItem_def)
qed

subsection \<open>Claim C8: duplicate names\<close>

text \<open>
  Claim C8 as stated fails. The second record replaces the first under the key \<open>A\<close>; its
  parent is \<open>A\<close> itself, so the single object is pushed into its own \<^verbatim>\<open>children\<close>
  and not into \<^verbatim>\<open>roots\<close>. The returned tree contains no node named \<open>A\<close>.
\<close>

theorem nestFlatToTree_duplicate_counterexample:
  "nestFlatToTree [mkItem ''A'' 1 None, mkItem ''A'' 2 (Some ''A'')] =
     Inr \<lparr>root_name = ''root'', root_children = [],
          objects = [(''A'', mkObj ''A'' 2 (Some ''A'') [''A''])]\<rparr>"
  by (simp add: eval_simps)

text \<open>
  Claim C8, amended. For records with levels in 1..6, let \<open>r\<close> be the last record carrying
  its name (earlier records \<open>pre\<close> may carry the same name). The object graph returned holds
  exactly one object under that name; it carries the level, parent, source and value of
  \<open>r\<close>; and it is referenced exactly once, by the root or by one parent, so the tree below
  the root never contains two nodes of that name. If moreover the parent links of the
  surviving records (the last record of every name) are acyclic, the node of \<open>r\<close> is in the
  tree below the root: the tree then contains exactly one node of that name, with the fields
  of the last record.
\<close>

theorem duplicate_name_last_wins:
  assumes "levelsOk (pre @ r # post)" and "name r \<notin> name ` set post"
  shows "\<exists>t ob. nestFlatToTree (pre @ r # post) = Inr t \<and>
           filter (\<lambda>e. fst e = name r) (objects t) = [(name r, ob)] \<and>
           name ob = name r \<and> level ob = level r \<and> parent ob = parent r \<and>
           source ob = source r \<and> value' ob = value' r \<and>
           count_list (allRefs t) (name r) = 1 \<and>
           ((\<forall>c \<in> set (survivors (pre @ r # post)). \<forall>p \<in> set (survivors (pre @ r # post)).
               level c \<noteq> 1 \<and> parent c = Some (name p) \<longrightarrow> rank (name p) < (rank (name c) :: nat))
            \<longrightarrow> inTree t (name r))"
proof -
  from assms(1) obtain t where t: "nestFlatToTree (pre @ r # post) = Inr t"
    using nestFlatToTree_ok by blast
  from last_record_object[OF assms t] obtain ob where
    ob: "map_of (objects t) (name r) = Some ob" "name ob = name r" "level ob = level r"
      "parent ob = parent r" "source ob = source r" "value' ob = value' r" by blast
  have "filter (\<lambda>e. fst e = name r) (objects t) = [(name r, ob)]"
    by (rule filter_key_single[OF objects_distinct[OF assms(1) t] ob(1)])
  moreover have "count_list (allRefs t) (name r) = 1"
    using allRefs_count[OF assms(1) t, of "name r"] by simp
  moreover have "inTree t (name r)"
    if "\<forall>c \<in> set (survivors (pre @ r # post)). \<forall>p \<in> set (survivors (pre @ r # post)).
               level c \<noteq> 1 \<and> parent c = Some (name p) \<longrightarrow> rank (name p) < rank (name c)"
    using survivor_inTree[OF assms(1) that t survivors_last[OF assms(2)]] .
  ultimately show ?thesis using t ob by blast
qed

text \<open>
  The amended C8 on an input where the name \<open>A\<close> occurs twice: the surviving object has
  the level and parent of the second record and is in the tree, below \<open>B\<close>.
\<close>

theorem duplicate_name_last_wins_witness:
  "\<exists>t ob. nestFlatToTree [mkItem ''A'' 1 None, mkItem ''B'' 1 None, mkItem ''A'' 2 (Some ''B'')] = Inr t \<and>
     filter (\<lambda>e. fst e = ''A'') (objects t) = [(''A'', ob)] \<and>
     level ob = 2 \<and> parent ob = Some ''B'' \<and> count_list (allRefs t) ''A'' = 1 \<and>
     inTree t ''A''"
proof -
  let ?r = "mkItem ''A'' 2 (Some ''B'')"
  let ?pre = "[mkItem ''A'' 1 None, mkItem ''B'' 1 None]"
  let ?rank = "\<lambda>n. if n = ''B'' then 0 else (1::nat)"
  have h1: "levelsOk (?pre @ ?r # [])"
    by (simp add: levelsOk_def mkItem_def)
  have h2: "name ?r \<notin> name ` set []" by simp
  have h3: "\<forall>c \<in> set (survivors (?pre @ ?r # [])). \<forall>p \<in> set (survivors (?pre @ ?r # [])).
               level c \<noteq> 1 \<and> parent c = Some (name p) \<longrightarrow> ?rank (name p) < ?rank (name c)"
    by (simp add: mkItem_def)
  from duplicate_name_last_wins[OF h1 h2, of ?rank] h3 obtain t ob where
    "nestFlatToTree (?pre @ ?r # []) = Inr t"
    "filter (\<lambda>e. fst e = name ?r) (objects t) = [(name ?r, ob)]"
    "level ob = level ?r" "parent ob = parent ?r"
    "count_list (allRefs t) (name ?r) = 1" "inTree t (name ?r)"
    by blast
  then show ?thesis by (intro exI[of _ t] exI[of _ ob]) (simp add: mkItem_def)
qed

section \<open>Properties of computeBubblePackingLayout\<close>

subsection \<open>The neighbour lookup never fails\<close>

lemma findIndexFrom_bounds:
  "findIndexFrom i P xs = -1 \<or> (i \<le> findIndexFrom i P xs \<and> findIndexFrom i P xs < i + int (length xs))"
proof (induction xs arbitrary: i)
  case Nil then show ?case by simp
next
  case (Cons x xs)
  show ?case using Cons.IH[of "i + 1"] by auto
qed

lemma findIndex_bounds: "- 1 \<le> findIndex P xs \<and> findIndex P xs < int (length xs)"
  using findIndexFrom_bounds[of 0 P xs] by (auto simp: findIndex_def)

lemma elemAt_jsRem:
  assumes "0 \<le> a" "1 < int (length xs)"
  shows "\<exists>y. elemAt xs (jsRem a (int (length xs))) = Some y \<and> y \<in> set xs"
proof -
  have "0 < int (length xs)" using assms(2) by linarith
  then have "0 \<le> a mod int (length xs)" "a mod int (length xs) < int (length xs)"
    by (rule pos_mod_sign, rule pos_mod_bound)
  then show ?thesis using assms by (simp add: elemAt_def jsRem_def nat_less_iff)
qed

lemma neighborRingCap_ok:
  "\<exists>cap. neighborRingCap placed ch rG = Inr cap \<and>
     (length placed \<le> 1 \<longrightarrow> cap = None) \<and> (\<forall>c. cap = Some c \<longrightarrow> 0 \<le> c)"
proof (cases "int (length placed) \<le> 1")
  case True
  then show ?thesis by (simp add: neighborRingCap_def)
next
  case False
  define idx where "idx = findIndex (\<lambda>p. b_id p = b_id ch) placed"
  have b: "- 1 \<le> idx" "idx < int (length placed)"
    using findIndex_bounds[of "\<lambda>p. b_id p = b_id ch" placed] by (simp_all add: idx_def)
  from False have n: "1 < int (length placed)" by simp
  obtain prev where prev: "elemAt placed (jsRem (idx - 1 + int (length placed)) (int (length placed))) = Some prev"
    using elemAt_jsRem[of "idx - 1 + int (length placed)" placed] b n by auto
  obtain nxt where nxt: "elemAt placed (jsRem (idx + 1) (int (length placed))) = Some nxt"
    using elemAt_jsRem[of "idx + 1" placed] b n by auto
  show ?thesis using False prev nxt
    by (simp add: neighborRingCap_def Let_def idx_def[symmetric])
qed

subsection \<open>Bounds of the clamped parameters\<close>

lemma clamp_bounds: "mn \<le> mx \<Longrightarrow> mn \<le> clamp v mn mx \<and> clamp v mn mx \<le> mx"
  by (simp add: clamp_def)

lemma gapG_bounds: "4 \<le> gapG side \<and> gapG side \<le> 12"
  unfolding gapG_def by (rule clamp_bounds) simp

lemma gapC_bounds: "6 \<le> gapC side \<and> gapC side \<le> 16"
  unfolding gapC_def by (rule clamp_bounds) simp

lemma minGrandR_bounds: "13 \<le> minGrandR side \<and> minGrandR side \<le> 32"
  unfolding minGrandR_def by (rule clamp_bounds) simp

lemma rParent_bounds: "40 \<le> rParent side \<and> rParent side \<le> 120"
  unfolding rParent_def by (rule clamp_bounds) simp

lemma arcSpan_pos: "0 < arcSpan"
  by (simp add: arcSpan_def)

subsection \<open>Radius and ring of the grandchildren of one child\<close>

text \<open>The radius and the bounds chosen for a child: the call never fails, the radius is
  between 6 and the initial candidate, and the lower bound is the maximum the source
  computes from the final radius.\<close>

lemma ringBounds_ok:
  "\<exists>rG ringGmin ringGmax. ringBounds side placed ch N = Inr (rG, ringGmin, ringGmax) \<and>
     6 \<le> rG \<and> rG \<le> minGrandR side \<and>
     ringGmin = max (real N * (2 * rG + gapG side) / arcSpan) (b_r ch + rG + safety)"
proof -
  define rG where "rG = minGrandR side"
  define mn where "mn = max (real N * (2 * rG + gapG side) / arcSpan) (b_r ch + rG + safety)"
  have rG: "13 \<le> rG" "rG \<le> 32" using minGrandR_bounds[of side] by (simp_all add: rG_def)
  obtain cap where cap: "neighborRingCap placed ch rG = Inr cap"
    using neighborRingCap_ok by blast
  show ?thesis
  proof (cases "\<exists>c. cap = Some c \<and> c < mn \<and> 0 < c")
    case False
    then have "ringBounds side placed ch N = Inr (rG, mn, cap)"
      using cap by (auto simp: ringBounds_def Let_def rG_def[symmetric] mn_def[symmetric] split: option.splits)
    then show ?thesis using rG by (auto simp: mn_def rG_def)
  next
    case True
    then obtain c where c: "cap = Some c" "c < mn" "0 < c" by blast
    define rG2 where "rG2 = max 6 (rG * clamp (c / mn) (13 / 20) 1)"
    define mn2 where "mn2 = max (real N * (2 * rG2 + gapG side) / arcSpan) (b_r ch + rG2 + safety)"
    obtain cap2 where cap2: "neighborRingCap placed ch rG2 = Inr cap2"
      using neighborRingCap_ok by blast
    have "ringBounds side placed ch N = Inr (rG2, mn2, cap2)"
      using cap c cap2
      by (simp add: ringBounds_def Let_def rG_def[symmetric] mn_def[symmetric]
          rG2_def[symmetric] mn2_def[symmetric])
    moreover have "6 \<le> rG2" by (simp add: rG2_def)
    moreover have "rG2 \<le> rG"
    proof -
      have "clamp (c / mn) (13 / 20) 1 \<le> 1" using clamp_bounds[of "13 / 20" 1 "c / mn"] by simp
      then have "rG * clamp (c / mn) (13 / 20) 1 \<le> rG * 1"
        using rG by (intro mult_left_mono) simp_all
      then show ?thesis using rG by (simp add: rG2_def)
    qed
    ultimately show ?thesis by (auto simp: mn2_def rG_def)
  qed
qed

lemma ringGOf_eq: "0 \<le> ringGmin \<Longrightarrow> ringGOf ringGmin ringGmax = ringGmin"
  by (cases ringGmax) (simp_all add: ringGOf_def Let_def)

lemma fold_max_ge: "m \<le> fold (\<lambda>it m. max m (ci_r it)) its (m :: real)"
proof (induction its arbitrary: m)
  case Nil then show ?case by simp
next
  case (Cons it its)
  have "m \<le> max m (ci_r it)" by simp
  also have "\<dots> \<le> fold (\<lambda>it m. max m (ci_r it)) its (max m (ci_r it))" by (rule Cons.IH)
  finally show ?case by simp
qed

lemma fold_max_ge_elem:
  "it \<in> set its \<Longrightarrow> ci_r it \<le> fold (\<lambda>it m. max m (ci_r it)) its (m :: real)"
proof (induction its arbitrary: m)
  case Nil then show ?case by simp
next
  case (Cons a its)
  show ?case
  proof (cases "it = a")
    case True
    have "ci_r a \<le> max m (ci_r a)" by simp
    also have "\<dots> \<le> fold (\<lambda>it m. max m (ci_r it)) its (max m (ci_r a))" by (rule fold_max_ge)
    finally show ?thesis using True by simp
  next
    case False
    with Cons.prems have "it \<in> set its" by simp
    from Cons.IH[OF this] show ?thesis by simp
  qed
qed

lemma baseRing_ge: "68 \<le> baseRing side its"
  using fold_max_ge[of 0 its] rParent_bounds[of side] by (simp add: baseRing_def)

lemma ringR_ge: "68 \<le> ringR side its"
  using baseRing_ge[of side its] by (simp add: ringR_def)

lemma ringCirc_pos: "0 < ringCirc side its"
proof -
  have "0 < ringR side its" using ringR_ge[of side its] by linarith
  then show ?thesis by (simp add: ringCirc_def)
qed

lemma ringBounds_shrink_bound:
  "ringBounds side placed ch N = Inr (rG, ringGmin, ringGmax) \<Longrightarrow>
     13 / 20 * minGrandR side \<le> rG"
proof -
  assume a: "ringBounds side placed ch N = Inr (rG, ringGmin, ringGmax)"
  define r0 where "r0 = minGrandR side"
  have r0: "13 \<le> r0" using minGrandR_bounds[of side] by (simp add: r0_def)
  have k: "13 / 20 * r0 \<le> max 6 (r0 * clamp v (13 / 20) 1)" for v
  proof -
    have "13 / 20 \<le> clamp v (13 / 20) 1" using clamp_bounds[of "13 / 20" 1 v] by simp
    then have "r0 * (13 / 20) \<le> r0 * clamp v (13 / 20) 1"
      using r0 by (intro mult_left_mono) simp_all
    then show ?thesis by simp
  qed
  from a show ?thesis
    using r0 k
    by (auto simp: ringBounds_def Let_def r0_def[symmetric] split: sum.splits option.splits if_splits)
qed

lemma placeGrandchildren_empty:
  "childrenOrEmpty (b_data ch) = [] \<Longrightarrow> placeGrandchildren side placed ch = Inr []"
  by (simp add: placeGrandchildren_def)

lemma ringGmin_pos:
  assumes "0 < N" "6 \<le> rG"
  shows "0 < max (real N * (2 * rG + gapG side) / arcSpan) (b_r ch + rG + safety)"
proof -
  have "0 < real N * (2 * rG + gapG side)"
    using assms gapG_bounds[of side] by (intro mult_pos_pos) simp_all
  then have "0 < real N * (2 * rG + gapG side) / arcSpan"
    using arcSpan_pos by simp
  then show ?thesis by simp
qed

lemma placeGrandchildren_form:
  assumes "childrenOrEmpty (b_data ch) \<noteq> []"
  shows "\<exists>rG ringG. 6 \<le> rG \<and> 13 / 20 * minGrandR side \<le> rG \<and> rG \<le> minGrandR side \<and>
           0 < ringG \<and>
           ringG = max (real (length (childrenOrEmpty (b_data ch))) * (2 * rG + gapG side) / arcSpan)
                       (b_r ch + rG + safety) \<and>
           placeGrandchildren side placed ch =
             Inr (map (grandBubble side ch rG ringG) [0..<length (childrenOrEmpty (b_data ch))])"
proof -
  let ?N = "length (childrenOrEmpty (b_data ch))"
  from assms have N: "0 < ?N" by simp
  obtain rG mn mx where rb: "ringBounds side placed ch ?N = Inr (rG, mn, mx)"
    and rG: "6 \<le> rG" "rG \<le> minGrandR side"
    and mn: "mn = max (real ?N * (2 * rG + gapG side) / arcSpan) (b_r ch + rG + safety)"
    using ringBounds_ok[of side placed ch ?N] by blast
  have "0 < mn" unfolding mn by (rule ringGmin_pos[OF N rG(1)])
  then have rg: "ringGOf mn mx = mn" by (intro ringGOf_eq) simp
  have "placeGrandchildren side placed ch = Inr (map (grandBubble side ch rG mn) [0..<?N])"
    using N rb by (simp add: placeGrandchildren_def Let_def rg grandBubble_def algebra_simps)
  with rG mn \<open>0 < mn\<close> ringBounds_shrink_bound[OF rb] show ?thesis by blast
qed

lemma grandchildrenOf_ok:
  "\<exists>gss. grandchildrenOf side placed chs = Inr gss \<and> length gss = length chs \<and>
     (\<forall>i < length chs. placeGrandchildren side placed (chs ! i) = Inr (gss ! i))"
proof (induction chs)
  case Nil then show ?case by simp
next
  case (Cons ch chs)
  obtain gs where gs: "placeGrandchildren side placed ch = Inr gs"
    using placeGrandchildren_form[of ch side placed] placeGrandchildren_empty[of ch side placed]
    by (cases "childrenOrEmpty (b_data ch) = []") auto
  from Cons.IH obtain gss where gss: "grandchildrenOf side placed chs = Inr gss"
    "length gss = length chs" "\<forall>i < length chs. placeGrandchildren side placed (chs ! i) = Inr (gss ! i)"
    by blast
  have "\<forall>i < length (ch # chs). placeGrandchildren side placed ((ch # chs) ! i) = Inr ((gs # gss) ! i)"
    using gs gss(3) by (auto simp: nth_Cons split: nat.splits)
  then show ?case using gs gss(1,2) by simp
qed

subsection \<open>The placed children\<close>

lemma placeChildren_length [simp]:
  "length (placeChildren fn side rr rc theta its) = length its"
  by (induction its arbitrary: theta) (simp_all add: Let_def)

lemma placeChildren_nth:
  "i < length its \<Longrightarrow>
     b_id (placeChildren fn side rr rc theta its ! i) = tn_name (ci_node (its ! i)) \<and>
     b_name (placeChildren fn side rr rc theta its ! i) = tn_name (ci_node (its ! i)) \<and>
     b_depth (placeChildren fn side rr rc theta its ! i) = 1 \<and>
     b_data (placeChildren fn side rr rc theta its ! i) = ci_node (its ! i) \<and>
     b_r (placeChildren fn side rr rc theta its ! i) = ci_r (its ! i) \<and>
     b_parentId (placeChildren fn side rr rc theta its ! i) = Some fn"
proof (induction its arbitrary: theta i)
  case Nil then show ?case by simp
next
  case (Cons it its)
  show ?case
  proof (cases i)
    case 0 then show ?thesis by (simp add: Let_def)
  next
    case (Suc j)
    with Cons.prems have "j < length its" by simp
    from Cons.IH[OF this] show ?thesis using Suc by (simp add: Let_def)
  qed
qed

lemma placeChildren_on_ring:
  "ch \<in> set (placeChildren fn side rr rc theta its) \<Longrightarrow>
     b_x ch = side / 2 + rr * cos (angle ch) \<and> b_y ch = side / 2 + rr * sin (angle ch)"
  by (induction its arbitrary: theta) (auto simp: Let_def)

lemma placedChildren_length [simp]:
  "length (placedChildren focus side) = length (childrenOrEmpty focus)"
  by (simp add: placedChildren_def Let_def)

lemma placedChildren_nth:
  assumes "i < length (childrenOrEmpty focus)"
  shows "b_id (placedChildren focus side ! i) = tn_name (childrenOrEmpty focus ! i)"
    and "b_depth (placedChildren focus side ! i) = 1"
    and "b_data (placedChildren focus side ! i) = childrenOrEmpty focus ! i"
    and "b_r (placedChildren focus side ! i) = ci_r (childInfoOf side (childrenOrEmpty focus ! i))"
    and "b_parentId (placedChildren focus side ! i) = Some (tn_name focus)"
  using assms
    placeChildren_nth[of i "map (childInfoOf side) (childrenOrEmpty focus)" "tn_name focus" side
      "ringR side (map (childInfoOf side) (childrenOrEmpty focus))"
      "ringCirc side (map (childInfoOf side) (childrenOrEmpty focus))" 0]
  by (simp_all add: placedChildren_def Let_def childInfoOf_def)

subsection \<open>The shape of every result\<close>

text \<open>The shape of every result: the call never fails, and the node list is the focus
  bubble, the placed children and the per-child grandchild lists.\<close>

lemma layout_form:
  "\<exists>gss. computeBubblePackingLayout focus side =
           Inr \<lparr>nodes = parentPlaced focus side # map asBubble (placedChildren focus side) @ concat gss,
                l_side = side\<rparr> \<and>
         length gss = length (childrenOrEmpty focus) \<and>
         (\<forall>i < length (childrenOrEmpty focus).
            placeGrandchildren side (placedChildren focus side) (placedChildren focus side ! i) = Inr (gss ! i))"
  using grandchildrenOf_ok[of side "placedChildren focus side" "placedChildren focus side"]
  by (auto simp: computeBubblePackingLayout_def Let_def)

lemma placeGrandchildren_length:
  "placeGrandchildren side placed ch = Inr gs \<Longrightarrow> length gs = length (childrenOrEmpty (b_data ch))"
  using placeGrandchildren_form[of ch side placed] placeGrandchildren_empty[of ch side placed]
  by (cases "childrenOrEmpty (b_data ch) = []") auto

lemma placeGrandchildren_depth:
  "placeGrandchildren side placed ch = Inr gs \<Longrightarrow> g \<in> set gs \<Longrightarrow>
     b_depth g = 2 \<and> b_parentId g = Some (b_id ch)"
  using placeGrandchildren_form[of ch side placed] placeGrandchildren_empty[of ch side placed]
  by (cases "childrenOrEmpty (b_data ch) = []") (auto simp: grandBubble_def Let_def)

lemma placeGrandchildren_radius:
  assumes "placeGrandchildren side placed ch = Inr gs"
  shows "\<exists>rG. 13 / 20 * minGrandR side \<le> rG \<and> rG \<le> minGrandR side \<and> (\<forall>g \<in> set gs. b_r g = rG)"
proof (cases "childrenOrEmpty (b_data ch) = []")
  case True
  then have "gs = []" using assms placeGrandchildren_empty[of ch side placed] by simp
  moreover have "13 / 20 * minGrandR side \<le> minGrandR side"
    using minGrandR_bounds[of side] by simp
  ultimately show ?thesis by (intro exI[of _ "minGrandR side"]) simp
next
  case False
  from placeGrandchildren_form[OF False, of side placed] assms
  show ?thesis by (auto simp: grandBubble_def Let_def)
qed

lemma placeGrandchildren_ids:
  "placeGrandchildren side placed ch = Inr gs \<Longrightarrow>
     map b_id gs = map (\<lambda>g. b_id ch @ ''::'' @ tn_name g) (childrenOrEmpty (b_data ch))"
  using placeGrandchildren_form[of ch side placed] placeGrandchildren_empty[of ch side placed]
  by (cases "childrenOrEmpty (b_data ch) = []")
     (auto simp: grandBubble_def Let_def intro!: nth_equalityI)

lemma placedChildren_depth:
  "ch \<in> set (placedChildren focus side) \<Longrightarrow> b_depth ch = 1"
  using placedChildren_nth(2)[of _ focus side] by (auto simp: in_set_conv_nth)

lemma layout_tiers:
  "\<exists>gss. computeBubblePackingLayout focus side =
           Inr \<lparr>nodes = parentPlaced focus side # map asBubble (placedChildren focus side) @ concat gss,
                l_side = side\<rparr> \<and>
         map length gss = map (\<lambda>c. length (childrenOrEmpty c)) (childrenOrEmpty focus) \<and>
         (\<forall>g \<in> set (concat gss). b_depth g = 2)"
proof -
  let ?placed = "placedChildren focus side"
  let ?cs = "childrenOrEmpty focus"
  obtain gss where l: "computeBubblePackingLayout focus side =
           Inr \<lparr>nodes = parentPlaced focus side # map asBubble ?placed @ concat gss, l_side = side\<rparr>"
    and len: "length gss = length ?cs"
    and pg: "\<forall>i < length ?cs. placeGrandchildren side ?placed (?placed ! i) = Inr (gss ! i)"
    using layout_form[of focus side] by blast
  have "map length gss = map (\<lambda>c. length (childrenOrEmpty c)) ?cs"
  proof (rule nth_equalityI)
    show "length (map length gss) = length (map (\<lambda>c. length (childrenOrEmpty c)) ?cs)"
      using len by simp
  next
    fix i assume "i < length (map length gss)"
    then have i: "i < length ?cs" using len by simp
    from pg i have "placeGrandchildren side ?placed (?placed ! i) = Inr (gss ! i)" by simp
    then have "length (gss ! i) = length (childrenOrEmpty (b_data (?placed ! i)))"
      by (rule placeGrandchildren_length)
    then show "map length gss ! i = map (\<lambda>c. length (childrenOrEmpty c)) ?cs ! i"
      using i len by (simp add: placedChildren_nth(3))
  qed
  moreover have "\<forall>g \<in> set (concat gss). b_depth g = 2"
  proof
    fix g assume "g \<in> set (concat gss)"
    then obtain gs where gs: "gs \<in> set gss" "g \<in> set gs" by auto
    then obtain i where i: "i < length gss" "gss ! i = gs" by (auto simp: in_set_conv_nth)
    with pg len have "placeGrandchildren side ?placed (?placed ! i) = Inr gs" by auto
    from placeGrandchildren_depth[OF this gs(2)] show "b_depth g = 2" by simp
  qed
  ultimately show ?thesis using l by blast
qed

subsection \<open>Claim C1: the number of bubbles\<close>

lemma filter_all: "\<forall>x \<in> set xs. P x \<Longrightarrow> filter P xs = xs"
  by (induction xs) auto

lemma filter_none: "\<forall>x \<in> set xs. \<not> P x \<Longrightarrow> filter P xs = []"
  by (induction xs) auto

lemma filter_tier0:
  "P p \<Longrightarrow> \<forall>x \<in> set xs. \<not> P x \<Longrightarrow> \<forall>y \<in> set ys. \<not> P y \<Longrightarrow> filter P (p # xs @ ys) = [p]"
  by (simp add: filter_none)

lemma filter_tier1:
  "\<not> P p \<Longrightarrow> \<forall>x \<in> set xs. P x \<Longrightarrow> \<forall>y \<in> set ys. \<not> P y \<Longrightarrow> filter P (p # xs @ ys) = xs"
  by (simp add: filter_none filter_all)

lemma filter_tier2:
  "\<not> P p \<Longrightarrow> \<forall>x \<in> set xs. \<not> P x \<Longrightarrow> \<forall>y \<in> set ys. P y \<Longrightarrow> filter P (p # xs @ ys) = ys"
  by (simp add: filter_none filter_all)

text \<open>
  Claim C1. For every focus node and every side the layout call returns, and its node list
  has exactly one bubble for the focus, one per direct child and one per grandchild:
  \<open>1 + |children| + \<Sum> |grandchildren|\<close> bubbles, of depth 0, 1 and 2 respectively.
\<close>

theorem layout_bubble_count:
  "\<exists>l. computeBubblePackingLayout focus side = Inr l \<and>
     length (nodes l) =
       1 + length (childrenOrEmpty focus)
         + sum_list (map (\<lambda>c. length (childrenOrEmpty c)) (childrenOrEmpty focus)) \<and>
     length (filter (\<lambda>b. b_depth b = 0) (nodes l)) = 1 \<and>
     length (filter (\<lambda>b. b_depth b = 1) (nodes l)) = length (childrenOrEmpty focus) \<and>
     length (filter (\<lambda>b. b_depth b = 2) (nodes l)) =
       sum_list (map (\<lambda>c. length (childrenOrEmpty c)) (childrenOrEmpty focus))"
proof -
  define p where "p = parentPlaced focus side"
  define cb where "cb = map asBubble (placedChildren focus side)"
  obtain gss where l: "computeBubblePackingLayout focus side =
           Inr \<lparr>nodes = p # cb @ concat gss, l_side = side\<rparr>"
    and len: "map length gss = map (\<lambda>c. length (childrenOrEmpty c)) (childrenOrEmpty focus)"
    and d2: "\<forall>g \<in> set (concat gss). b_depth g = 2"
    using layout_tiers[of focus side] unfolding p_def cb_def by blast
  have d1: "\<forall>b \<in> set cb. b_depth b = 1"
    by (auto simp: cb_def asBubble_def placedChildren_depth)
  have d0: "b_depth p = 0" by (simp add: p_def parentPlaced_def)
  have n1: "length cb = length (childrenOrEmpty focus)" by (simp add: cb_def)
  have n2: "length (concat gss) = sum_list (map (\<lambda>c. length (childrenOrEmpty c)) (childrenOrEmpty focus))"
    by (simp add: length_concat len)
  have f0: "filter (\<lambda>b. b_depth b = 0) (p # cb @ concat gss) = [p]"
    using d0 d1 d2 by (intro filter_tier0) simp_all
  have f1: "filter (\<lambda>b. b_depth b = 1) (p # cb @ concat gss) = cb"
    using d0 d1 d2 by (intro filter_tier1) simp_all
  have f2: "filter (\<lambda>b. b_depth b = 2) (p # cb @ concat gss) = concat gss"
    using d0 d1 d2 by (intro filter_tier2) simp_all
  let ?l = "\<lparr>nodes = p # cb @ concat gss, l_side = side\<rparr>"
  have "length (nodes ?l) =
       1 + length (childrenOrEmpty focus)
         + sum_list (map (\<lambda>c. length (childrenOrEmpty c)) (childrenOrEmpty focus))"
    using n1 n2 by simp
  moreover have "length (filter (\<lambda>b. b_depth b = 0) (nodes ?l)) = 1"
    by (simp only: Layout.select_convs f0) simp
  moreover have "length (filter (\<lambda>b. b_depth b = 1) (nodes ?l)) = length (childrenOrEmpty focus)"
    by (simp only: Layout.select_convs f1 n1)
  moreover have "length (filter (\<lambda>b. b_depth b = 2) (nodes ?l)) =
       sum_list (map (\<lambda>c. length (childrenOrEmpty c)) (childrenOrEmpty focus))"
    by (simp only: Layout.select_convs f2 n2)
  ultimately show ?thesis using l by blast
qed

subsection \<open>Claim C10: one radius per child\<close>

text \<open>
  Claim C10. The tier-2 bubbles come in one group per child, in child order; the bubbles of a
  group all carry the child's id as parent id and all have the same radius, which lies
  between 65% of the initial candidate \<^verbatim>\<open>minGrandR\<close> (after the one optional shrink) and
  that candidate.
\<close>

theorem grandchildren_share_radius:
  "\<exists>gss. computeBubblePackingLayout focus side =
           Inr \<lparr>nodes = parentPlaced focus side # map asBubble (placedChildren focus side) @ concat gss,
                l_side = side\<rparr> \<and>
         length gss = length (childrenOrEmpty focus) \<and>
         (\<forall>i < length gss.
            length (gss ! i) = length (childrenOrEmpty (childrenOrEmpty focus ! i)) \<and>
            (\<forall>g \<in> set (gss ! i).
               b_depth g = 2 \<and> b_parentId g = Some (tn_name (childrenOrEmpty focus ! i))) \<and>
            (\<exists>rG. 13 / 20 * minGrandR side \<le> rG \<and> rG \<le> minGrandR side \<and>
               (\<forall>g \<in> set (gss ! i). b_r g = rG)))"
proof -
  let ?placed = "placedChildren focus side"
  let ?cs = "childrenOrEmpty focus"
  obtain gss where l: "computeBubblePackingLayout focus side =
           Inr \<lparr>nodes = parentPlaced focus side # map asBubble ?placed @ concat gss, l_side = side\<rparr>"
    and len: "length gss = length ?cs"
    and pg: "\<forall>i < length ?cs. placeGrandchildren side ?placed (?placed ! i) = Inr (gss ! i)"
    using layout_form[of focus side] by blast
  have "length (gss ! i) = length (childrenOrEmpty (?cs ! i)) \<and>
        (\<forall>g \<in> set (gss ! i). b_depth g = 2 \<and> b_parentId g = Some (tn_name (?cs ! i))) \<and>
        (\<exists>rG. 13 / 20 * minGrandR side \<le> rG \<and> rG \<le> minGrandR side \<and>
               (\<forall>g \<in> set (gss ! i). b_r g = rG))"
    if "i < length gss" for i
  proof -
    from that len have i: "i < length ?cs" by simp
    with pg have p: "placeGrandchildren side ?placed (?placed ! i) = Inr (gss ! i)" by simp
    show ?thesis
      using placeGrandchildren_length[OF p] placeGrandchildren_depth[OF p]
        placeGrandchildren_radius[OF p] placedChildren_nth(1,3)[OF i, of side]
      by simp
  qed
  with l len show ?thesis by blast
qed

text \<open>
  Claim C10 on a focus with a leaf child and a child with two children, side 600: the two
  tier-2 bubbles have equal radii.
\<close>

theorem grandchildren_share_radius_witness:
  "\<exists>gss. computeBubblePackingLayout (branch ''K'' [leaf ''Bio'', branch ''Art'' [leaf ''Style'', leaf ''Work'']]) 600 =
           Inr \<lparr>nodes = parentPlaced (branch ''K'' [leaf ''Bio'', branch ''Art'' [leaf ''Style'', leaf ''Work'']]) 600
                   # map asBubble (placedChildren (branch ''K'' [leaf ''Bio'', branch ''Art'' [leaf ''Style'', leaf ''Work'']]) 600)
                   @ concat gss,
                l_side = 600\<rparr> \<and>
         length gss = 2 \<and> length (gss ! 1) = 2 \<and> b_r (gss ! 1 ! 0) = b_r (gss ! 1 ! 1)"
proof -
  let ?f = "branch ''K'' [leaf ''Bio'', branch ''Art'' [leaf ''Style'', leaf ''Work'']]"
  have cs: "childrenOrEmpty ?f = [leaf ''Bio'', branch ''Art'' [leaf ''Style'', leaf ''Work'']]"
    by (simp add: childrenOrEmpty_def branch_def)
  from grandchildren_share_radius[of ?f 600] obtain gss where
    l: "computeBubblePackingLayout ?f 600 =
           Inr \<lparr>nodes = parentPlaced ?f 600 # map asBubble (placedChildren ?f 600) @ concat gss,
                l_side = 600\<rparr>"
    and len: "length gss = length (childrenOrEmpty ?f)"
    and all: "\<forall>i < length gss.
            length (gss ! i) = length (childrenOrEmpty (childrenOrEmpty ?f ! i)) \<and>
            (\<forall>g \<in> set (gss ! i).
               b_depth g = 2 \<and> b_parentId g = Some (tn_name (childrenOrEmpty ?f ! i))) \<and>
            (\<exists>rG. 13 / 20 * minGrandR 600 \<le> rG \<and> rG \<le> minGrandR 600 \<and>
               (\<forall>g \<in> set (gss ! i). b_r g = rG))"
    by blast
  from len cs have n: "length gss = 2" by simp
  then have "(1::nat) < length gss" by simp
  with all have one: "length (gss ! 1) = length (childrenOrEmpty (childrenOrEmpty ?f ! 1))"
    and "\<exists>rG. 13 / 20 * minGrandR 600 \<le> rG \<and> rG \<le> minGrandR 600 \<and>
               (\<forall>g \<in> set (gss ! 1). b_r g = rG)" by blast+
  then obtain rG where rG: "\<forall>g \<in> set (gss ! 1). b_r g = rG" by blast
  from one cs have n1: "length (gss ! 1) = 2" by (simp add: childrenOrEmpty_def branch_def)
  then have "gss ! 1 ! 0 \<in> set (gss ! 1)" "gss ! 1 ! 1 \<in> set (gss ! 1)" by simp_all
  with rG have "b_r (gss ! 1 ! 0) = b_r (gss ! 1 ! 1)" by simp
  with l n n1 show ?thesis by blast
qed

subsection \<open>Claim C7: totality and divisors\<close>

text \<open>
  Claim C7. For every focus node and every side (in particular every side \<open>\<ge> 0\<close>) the
  layout call returns a result: the only failure the body could have, reading a field of a
  missing neighbour in \<^verbatim>\<open>neighborRingCap\<close>, never happens. A focus without children
  yields the single tier-0 bubble, whose radius is at least the clamp minimum 40. Every
  divisor is strictly positive: the ring circumference \<^verbatim>\<open>ringCirc\<close>, the constant
  \<^verbatim>\<open>arcSpan\<close>, the first \<^verbatim>\<open>ringGmin\<close> (divisor of the shrink ratio) and the final
  ring radius \<^verbatim>\<open>ringG\<close> (divisor of \<^verbatim>\<open>stepTheta\<close>) of every child with \<open>N > 0\<close>
  grandchildren. A child without grandchildren gets no tier-2 bubble.
\<close>

theorem layout_total_no_zero_divisor:
  "(\<exists>l. computeBubblePackingLayout focus side = Inr l \<and>
        (childrenOrEmpty focus = [] \<longrightarrow> nodes l = [parentPlaced focus side])) \<and>
   40 \<le> b_r (parentPlaced focus side) \<and>
   0 < ringCirc side (map (childInfoOf side) (childrenOrEmpty focus)) \<and>
   0 < arcSpan \<and>
   (\<forall>ch \<in> set (placedChildren focus side).
      (childrenOrEmpty (b_data ch) = [] \<longrightarrow>
         placeGrandchildren side (placedChildren focus side) ch = Inr []) \<and>
      (\<forall>N > 0.
         0 < max (real N * (2 * minGrandR side + gapG side) / arcSpan) (b_r ch + minGrandR side + safety) \<and>
         (\<exists>rG ringGmin ringGmax.
            ringBounds side (placedChildren focus side) ch N = Inr (rG, ringGmin, ringGmax) \<and>
            0 < ringGOf ringGmin ringGmax)))"
proof (intro conjI ballI allI impI)
  obtain gss where l: "computeBubblePackingLayout focus side =
           Inr \<lparr>nodes = parentPlaced focus side # map asBubble (placedChildren focus side) @ concat gss,
                l_side = side\<rparr>"
    and len: "length gss = length (childrenOrEmpty focus)"
    using layout_form[of focus side] by blast
  have "childrenOrEmpty focus = [] \<longrightarrow>
          parentPlaced focus side # map asBubble (placedChildren focus side) @ concat gss
            = [parentPlaced focus side]"
    using len by (auto simp: placedChildren_def)
  with l show "\<exists>l. computeBubblePackingLayout focus side = Inr l \<and>
        (childrenOrEmpty focus = [] \<longrightarrow> nodes l = [parentPlaced focus side])"
    by simp
next
  show "40 \<le> b_r (parentPlaced focus side)"
    using rParent_bounds[of side] by (simp add: parentPlaced_def)
next
  show "0 < ringCirc side (map (childInfoOf side) (childrenOrEmpty focus))"
    by (rule ringCirc_pos)
next
  show "0 < arcSpan" by (rule arcSpan_pos)
next
  fix ch :: ChildPlaced assume "childrenOrEmpty (b_data ch) = []"
  then show "placeGrandchildren side (placedChildren focus side) ch = Inr []"
    by (rule placeGrandchildren_empty)
next
  fix ch :: ChildPlaced and N :: nat assume N: "0 < N"
  have "6 \<le> minGrandR side" using minGrandR_bounds[of side] by simp
  from ringGmin_pos[OF N this]
  show "0 < max (real N * (2 * minGrandR side + gapG side) / arcSpan) (b_r ch + minGrandR side + safety)" .
next
  fix ch :: ChildPlaced and N :: nat assume N: "0 < N"
  obtain rG mn mx where rb: "ringBounds side (placedChildren focus side) ch N = Inr (rG, mn, mx)"
    and rG: "6 \<le> rG"
    and mn: "mn = max (real N * (2 * rG + gapG side) / arcSpan) (b_r ch + rG + safety)"
    using ringBounds_ok[of side "placedChildren focus side" ch N] by blast
  have "0 < mn" unfolding mn by (rule ringGmin_pos[OF N rG])
  moreover from this have "ringGOf mn mx = mn" by (intro ringGOf_eq) simp
  ultimately show "\<exists>rG ringGmin ringGmax.
            ringBounds side (placedChildren focus side) ch N = Inr (rG, ringGmin, ringGmax) \<and>
            0 < ringGOf ringGmin ringGmax"
    using rb by auto
qed

text \<open>
  Claim C7 at side 0. A childless focus yields the single focus bubble, with the minimum
  radius 40. For a focus with a childless child and a child that has one child, no tier-2
  bubble is placed for the former, and the ring radius computed for the latter is positive.
\<close>

theorem layout_total_no_zero_divisor_witness:
  "(\<exists>l. computeBubblePackingLayout (leaf ''Solo'') 0 = Inr l \<and> nodes l = [parentPlaced (leaf ''Solo'') 0]) \<and>
   b_r (parentPlaced (leaf ''Solo'') 0) = 40 \<and>
   placeGrandchildren 0 (placedChildren (branch ''K'' [leaf ''Bio'', branch ''Art'' [leaf ''Style'']]) 0)
     (placedChildren (branch ''K'' [leaf ''Bio'', branch ''Art'' [leaf ''Style'']]) 0 ! 0) = Inr [] \<and>
   (\<exists>rG ringGmin ringGmax.
      ringBounds 0 (placedChildren (branch ''K'' [leaf ''Bio'', branch ''Art'' [leaf ''Style'']]) 0)
        (placedChildren (branch ''K'' [leaf ''Bio'', branch ''Art'' [leaf ''Style'']]) 0 ! 1) 1
        = Inr (rG, ringGmin, ringGmax) \<and>
      0 < ringGOf ringGmin ringGmax)"
proof -
  let ?f = "branch ''K'' [leaf ''Bio'', branch ''Art'' [leaf ''Style'']]"
  have solo: "(\<exists>l. computeBubblePackingLayout (leaf ''Solo'') 0 = Inr l \<and>
                  nodes l = [parentPlaced (leaf ''Solo'') 0]) \<and>
              b_r (parentPlaced (leaf ''Solo'') 0) = 40"
    using layout_total_no_zero_divisor[of "leaf ''Solo''" 0]
    by (simp add: leaf_def childrenOrEmpty_def parentPlaced_def rParent_def clamp_def)
  have cs: "childrenOrEmpty ?f = [leaf ''Bio'', branch ''Art'' [leaf ''Style'']]"
    by (simp add: childrenOrEmpty_def branch_def)
  have n: "length (placedChildren ?f 0) = 2" by (simp add: cs)
  then have m0: "placedChildren ?f 0 ! 0 \<in> set (placedChildren ?f 0)"
    and m1: "placedChildren ?f 0 ! 1 \<in> set (placedChildren ?f 0)" by simp_all
  have "b_data (placedChildren ?f 0 ! 0) = leaf ''Bio''"
    using placedChildren_nth(3)[of 0 ?f 0] by (simp add: cs)
  then have e: "childrenOrEmpty (b_data (placedChildren ?f 0 ! 0)) = []"
    by (simp add: childrenOrEmpty_def leaf_def)
  from layout_total_no_zero_divisor[of ?f 0] have all:
    "\<forall>ch \<in> set (placedChildren ?f 0).
      (childrenOrEmpty (b_data ch) = [] \<longrightarrow>
         placeGrandchildren 0 (placedChildren ?f 0) ch = Inr []) \<and>
      (\<forall>N > 0.
         0 < max (real N * (2 * minGrandR 0 + gapG 0) / arcSpan) (b_r ch + minGrandR 0 + safety) \<and>
         (\<exists>rG ringGmin ringGmax.
            ringBounds 0 (placedChildren ?f 0) ch N = Inr (rG, ringGmin, ringGmax) \<and>
            0 < ringGOf ringGmin ringGmax))"
    by blast
  from all m0 e have "placeGrandchildren 0 (placedChildren ?f 0) (placedChildren ?f 0 ! 0) = Inr []"
    by blast
  moreover from all m1 have "\<exists>rG ringGmin ringGmax.
      ringBounds 0 (placedChildren ?f 0) (placedChildren ?f 0 ! 1) 1 = Inr (rG, ringGmin, ringGmax) \<and>
      0 < ringGOf ringGmin ringGmax"
    by (metis zero_less_one)
  ultimately show ?thesis using solo by blast
qed

subsection \<open>Claim C9: bubble ids\<close>

lemma layout_ids:
  "\<exists>l. computeBubblePackingLayout focus side = Inr l \<and> map b_id (nodes l) = expectedIds focus"
proof -
  let ?placed = "placedChildren focus side"
  let ?cs = "childrenOrEmpty focus"
  obtain gss where l: "computeBubblePackingLayout focus side =
           Inr \<lparr>nodes = parentPlaced focus side # map asBubble ?placed @ concat gss, l_side = side\<rparr>"
    and len: "length gss = length ?cs"
    and pg: "\<forall>i < length ?cs. placeGrandchildren side ?placed (?placed ! i) = Inr (gss ! i)"
    using layout_form[of focus side] by blast
  have c: "map b_id (map asBubble ?placed) = map tn_name ?cs"
    by (rule nth_equalityI) (simp_all add: asBubble_def placedChildren_nth(1))
  have "map (map b_id) gss =
          map (\<lambda>c. map (\<lambda>g. tn_name c @ ''::'' @ tn_name g) (childrenOrEmpty c)) ?cs"
  proof (rule nth_equalityI)
    show "length (map (map b_id) gss) =
          length (map (\<lambda>c. map (\<lambda>g. tn_name c @ ''::'' @ tn_name g) (childrenOrEmpty c)) ?cs)"
      using len by simp
  next
    fix i assume "i < length (map (map b_id) gss)"
    then have i: "i < length ?cs" using len by simp
    with pg have "placeGrandchildren side ?placed (?placed ! i) = Inr (gss ! i)" by simp
    from placeGrandchildren_ids[OF this] i len
    show "map (map b_id) gss ! i =
          map (\<lambda>c. map (\<lambda>g. tn_name c @ ''::'' @ tn_name g) (childrenOrEmpty c)) ?cs ! i"
      by (simp add: placedChildren_nth(1,3))
  qed
  then have g: "map b_id (concat gss) =
          concat (map (\<lambda>c. map (\<lambda>g. tn_name c @ ''::'' @ tn_name g) (childrenOrEmpty c)) ?cs)"
    by (simp add: map_concat)
  have "map b_id (parentPlaced focus side # map asBubble ?placed @ concat gss) = expectedIds focus"
    unfolding expectedIds_def using c g by (simp add: parentPlaced_def)
  with l show ?thesis by simp
qed

text \<open>
  Claim C9 as stated fails. The focus \<open>X\<close> has the children \<open>A\<close> (with one child \<open>B\<close>) and
  \<open>A::B\<close>: all names differ, yet the tier-2 bubble of \<open>B\<close> gets the id \<open>A::B\<close>, which is
  also the id of the second tier-1 bubble. Tier-0 and tier-1 ids are bare names.
\<close>

theorem layout_ids_counterexample:
  "map b_id (layoutNodes (computeBubblePackingLayout
       (branch ''X'' [branch ''A'' [leaf ''B''], leaf ''A::B'']) 600))
     = [''X'', ''A'', ''A::B'', ''A::B'']"
  using layout_ids[of "branch ''X'' [branch ''A'' [leaf ''B''], leaf ''A::B'']" 600]
  by (auto simp: layoutNodes_def expectedIds_def childrenOrEmpty_def branch_def leaf_def)

lemma sep_inject:
  "CHR '':'' \<notin> set a \<Longrightarrow> CHR '':'' \<notin> set a' \<Longrightarrow> a @ ''::'' @ x = a' @ ''::'' @ y \<Longrightarrow> a = a' \<and> x = y"
proof (induction a arbitrary: a')
  case Nil
  then show ?case by (cases a') auto
next
  case (Cons c a)
  then show ?case by (cases a') auto
qed

lemma distinct_grand_ids:
  assumes "distinct (map tn_name cs)" "\<forall>c \<in> set cs. CHR '':'' \<notin> set (tn_name c)"
    "\<forall>c \<in> set cs. distinct (map tn_name (childrenOrEmpty c))"
  shows "distinct (concat (map (\<lambda>c. map (\<lambda>g. tn_name c @ ''::'' @ tn_name g) (childrenOrEmpty c)) cs))"
  using assms
proof (induction cs)
  case Nil then show ?case by simp
next
  case (Cons c cs)
  have inj: "distinct (map (\<lambda>g. tn_name c @ ''::'' @ tn_name g) (childrenOrEmpty c))"
    using Cons.prems(3) by (simp add: distinct_map inj_on_def)
  have disj: "tn_name c @ ''::'' @ tn_name g \<noteq> tn_name c' @ ''::'' @ tn_name g'"
    if "c' \<in> set cs" for c' g g'
  proof
    assume "tn_name c @ ''::'' @ tn_name g = tn_name c' @ ''::'' @ tn_name g'"
    then have "tn_name c = tn_name c'"
      using sep_inject[of "tn_name c" "tn_name c'"] Cons.prems(2) that by auto
    with Cons.prems(1) that show False by auto
  qed
  show ?case using Cons inj disj by auto
qed

text \<open>
  Claim C9, amended. The ids of a result are, in order: the focus name, the names of the
  children, and for every grandchild the child's name, \<open>::\<close> and the grandchild's name.
  They are pairwise distinct when the focus and its children carry pairwise distinct names
  without a colon and the children of each child carry pairwise distinct names; the same
  grandchild name below two such children then yields two distinct ids.
\<close>

theorem layout_ids_distinct:
  assumes "CHR '':'' \<notin> set (tn_name focus)"
    and "\<forall>c \<in> set (childrenOrEmpty focus). CHR '':'' \<notin> set (tn_name c)"
    and "distinct (tn_name focus # map tn_name (childrenOrEmpty focus))"
    and "\<forall>c \<in> set (childrenOrEmpty focus). distinct (map tn_name (childrenOrEmpty c))"
  shows "\<exists>l. computeBubblePackingLayout focus side = Inr l \<and>
           map b_id (nodes l) = expectedIds focus \<and> distinct (map b_id (nodes l))"
proof -
  let ?cs = "childrenOrEmpty focus"
  let ?g = "concat (map (\<lambda>c. map (\<lambda>g. tn_name c @ ''::'' @ tn_name g) (childrenOrEmpty c)) ?cs)"
  have colon: "CHR '':'' \<in> set s" if "s \<in> set ?g" for s using that by auto
  have "distinct ?g" using assms(2,3,4) by (intro distinct_grand_ids) simp_all
  moreover have "tn_name focus \<notin> set ?g" using colon assms(1) by blast
  moreover have "set (map tn_name ?cs) \<inter> set ?g = {}" using colon assms(2) by fastforce
  ultimately have "distinct (expectedIds focus)"
    using assms(3) unfolding expectedIds_def by (simp only: distinct.simps distinct_append set_append) blast
  with layout_ids[of focus side] show ?thesis by auto
qed

text \<open>
  The amended C9 with the leaf name \<open>Store\<close> below two different children.
\<close>

theorem layout_ids_distinct_witness:
  "\<exists>l. computeBubblePackingLayout
          (branch ''Kusama'' [branch ''Tokyo'' [leaf ''Store''], branch ''Osaka'' [leaf ''Store'']]) 600 = Inr l \<and>
       map b_id (nodes l) = [''Kusama'', ''Tokyo'', ''Osaka'', ''Tokyo::Store'', ''Osaka::Store''] \<and>
       distinct (map b_id (nodes l))"
  using layout_ids_distinct[of "branch ''Kusama'' [branch ''Tokyo'' [leaf ''Store''], branch ''Osaka'' [leaf ''Store'']]" 600]
  by (simp add: expectedIds_def childrenOrEmpty_def branch_def leaf_def)

subsection \<open>Claim C3: grandchildren on the outward arc\<close>

lemma sq_expand:
  fixes R \<rho> c s c' s' :: real
  shows "(R * c + \<rho> * c')\<^sup>2 + (R * s + \<rho> * s')\<^sup>2
     = R\<^sup>2 * (c\<^sup>2 + s\<^sup>2) + \<rho>\<^sup>2 * (c'\<^sup>2 + s'\<^sup>2) + 2 * R * \<rho> * (c' * c + s' * s)"
  by (simp add: power2_eq_square algebra_simps)

lemma ring_dist:
  fixes R \<rho> a \<theta> :: real
  shows "(R * cos a + \<rho> * cos \<theta>)\<^sup>2 + (R * sin a + \<rho> * sin \<theta>)\<^sup>2
     = R\<^sup>2 + \<rho>\<^sup>2 + 2 * R * \<rho> * cos (\<theta> - a)"
  unfolding sq_expand cos_diff by simp

lemma hypot_ring: "hypot (R * cos a) (R * sin a) = \<bar>R\<bar>"
proof -
  have "(R * cos a)\<^sup>2 + (R * sin a)\<^sup>2 = R\<^sup>2 * ((cos a)\<^sup>2 + (sin a)\<^sup>2)"
    by (simp only: power_mult_distrib distrib_left)
  then show ?thesis by (simp add: hypot_def)
qed

lemma hypot_scale: "hypot (t * u) (t * v) = \<bar>t\<bar> * hypot u v"
proof -
  have "(t * u)\<^sup>2 + (t * v)\<^sup>2 = t\<^sup>2 * (u\<^sup>2 + v\<^sup>2)"
    by (simp only: power_mult_distrib distrib_left)
  then show ?thesis by (simp add: hypot_def real_sqrt_mult)
qed

text \<open>A point at distance \<open>\<rho> > 0\<close> from a point of the ring, in a direction less than a
  right angle away from the outward radial direction, is farther from the centre than the
  ring.\<close>

lemma outward_farther:
  assumes "0 < R" "0 < \<rho>" "\<bar>\<theta> - a\<bar> < pi / 2"
  shows "hypot (R * cos a) (R * sin a) < hypot (R * cos a + \<rho> * cos \<theta>) (R * sin a + \<rho> * sin \<theta>)"
proof -
  have "0 < cos (\<theta> - a)" using assms(3) by (intro cos_gt_zero_pi) linarith+
  then have "0 < 2 * R * \<rho> * cos (\<theta> - a)" using assms(1,2) by simp
  moreover have "0 < \<rho>\<^sup>2" using assms(2) by simp
  ultimately have "R\<^sup>2 < R\<^sup>2 + \<rho>\<^sup>2 + 2 * R * \<rho> * cos (\<theta> - a)" by linarith
  then have "sqrt (R\<^sup>2) < sqrt ((R * cos a + \<rho> * cos \<theta>)\<^sup>2 + (R * sin a + \<rho> * sin \<theta>)\<^sup>2)"
    by (simp only: ring_dist real_sqrt_less_iff)
  then have "R < hypot (R * cos a + \<rho> * cos \<theta>) (R * sin a + \<rho> * sin \<theta>)"
    using assms(1) by (simp add: hypot_def)
  moreover have "hypot (R * cos a) (R * sin a) = R"
    using assms(1) by (simp add: hypot_ring)
  ultimately show ?thesis by simp
qed

lemma arcSpan_half: "arcSpan / 2 < pi / 2"
  by (simp add: arcSpan_def)

lemma abs_centered:
  fixes x n :: real
  assumes "0 \<le> x" "x \<le> n - 1"
  shows "\<bar>x - (n - 1) / 2\<bar> \<le> (n - 1) / 2"
proof (rule abs_leI)
  show "x - (n - 1) / 2 \<le> (n - 1) / 2" using assms by (simp add: field_simps)
  show "- (x - (n - 1) / 2) \<le> (n - 1) / 2" using assms by (simp add: field_simps)
qed

text \<open>The angular offset of grandchild \<open>i\<close> from the child's own angle.\<close>

lemma grand_angle_offset:
  assumes "i < N" "0 < s" "real N * s \<le> arcSpan"
  shows "\<bar>(a - (real N - 1) * s / 2 + real i * s) - a\<bar> < arcSpan / 2"
proof -
  have "(a - (real N - 1) * s / 2 + real i * s) - a = (real i - (real N - 1) / 2) * s"
    by (simp add: algebra_simps)
  moreover have "\<bar>real i - (real N - 1) / 2\<bar> \<le> (real N - 1) / 2"
  proof -
    have "i + 1 \<le> N" using assms(1) by simp
    then have "real (i + 1) \<le> real N" by (simp only: of_nat_le_iff)
    then have "real i \<le> real N - 1" by simp
    then show ?thesis by (intro abs_centered) simp_all
  qed
  ultimately have "\<bar>(a - (real N - 1) * s / 2 + real i * s) - a\<bar> \<le> (real N - 1) / 2 * s"
    using assms(2) by (simp add: abs_mult mult_right_mono)
  also have "\<dots> < real N * s / 2" using assms(2) by (simp add: algebra_simps)
  also have "\<dots> \<le> arcSpan / 2" using assms(3) by simp
  finally show ?thesis .
qed

lemma placedChildren_on_ring:
  assumes "ch \<in> set (placedChildren focus side)"
  shows "b_x ch = side / 2 + ringR side (map (childInfoOf side) (childrenOrEmpty focus)) * cos (angle ch)"
    and "b_y ch = side / 2 + ringR side (map (childInfoOf side) (childrenOrEmpty focus)) * sin (angle ch)"
  using assms placeChildren_on_ring[of ch "tn_name focus" side
      "ringR side (map (childInfoOf side) (childrenOrEmpty focus))"
      "ringCirc side (map (childInfoOf side) (childrenOrEmpty focus))" 0
      "map (childInfoOf side) (childrenOrEmpty focus)"]
  by (simp_all add: placedChildren_def Let_def)

text \<open>Where the grandchildren of one placed child end up, relative to a ring of radius
  \<open>R\<close> around the canvas centre that carries the child.\<close>

lemma placeGrandchildren_outward:
  assumes pg: "placeGrandchildren side placed ch = Inr gs" and g: "g \<in> set gs"
    and R: "0 < R"
    and cx: "b_x ch = side / 2 + R * cos (angle ch)"
    and cy: "b_y ch = side / 2 + R * sin (angle ch)"
  shows "\<exists>\<rho> \<theta>. 0 < \<rho> \<and> \<bar>\<theta> - angle ch\<bar> < arcSpan / 2 \<and>
           b_x g = b_x ch + \<rho> * cos \<theta> \<and> b_y g = b_y ch + \<rho> * sin \<theta> \<and>
           hypot (b_x ch - side / 2) (b_y ch - side / 2) < hypot (b_x g - side / 2) (b_y g - side / 2)"
proof (cases "childrenOrEmpty (b_data ch) = []")
  case True
  with pg g show ?thesis using placeGrandchildren_empty[of ch side placed] by simp
next
  case False
  let ?N = "length (childrenOrEmpty (b_data ch))"
  from placeGrandchildren_form[OF False, of side placed] pg
  obtain rG \<rho> where rG: "6 \<le> rG" and rho: "0 < \<rho>"
    and rho_eq: "\<rho> = max (real ?N * (2 * rG + gapG side) / arcSpan) (b_r ch + rG + safety)"
    and gs: "gs = map (grandBubble side ch rG \<rho>) [0..<?N]"
    by auto
  from g gs obtain i where i: "i < ?N" and gi: "g = grandBubble side ch rG \<rho> i" by auto
  define s where "s = (2 * rG + gapG side) / \<rho>"
  define \<theta> where "\<theta> = angle ch - (real ?N - 1) * s / 2 + real i * s"
  have num: "0 < 2 * rG + gapG side" using rG gapG_bounds[of side] by simp
  have s_pos: "0 < s" unfolding s_def using num rho by simp
  have "real ?N * (2 * rG + gapG side) / arcSpan \<le> \<rho>" unfolding rho_eq by simp
  then have "real ?N * (2 * rG + gapG side) \<le> \<rho> * arcSpan"
    using arcSpan_pos by (simp add: pos_divide_le_eq)
  then have "real ?N * (2 * rG + gapG side) / \<rho> \<le> arcSpan"
    using rho by (simp add: pos_divide_le_eq mult.commute)
  then have Ns: "real ?N * s \<le> arcSpan" by (simp add: s_def)
  have off: "\<bar>\<theta> - angle ch\<bar> < arcSpan / 2"
    unfolding \<theta>_def by (rule grand_angle_offset[OF i s_pos Ns])
  have gx: "b_x g = b_x ch + \<rho> * cos \<theta>" and gy: "b_y g = b_y ch + \<rho> * sin \<theta>"
    by (simp_all add: gi grandBubble_def Let_def \<theta>_def s_def)
  have "\<bar>\<theta> - angle ch\<bar> < pi / 2" using off arcSpan_half by linarith
  from outward_farther[OF R rho this]
  have "hypot (b_x ch - side / 2) (b_y ch - side / 2) < hypot (b_x g - side / 2) (b_y g - side / 2)"
    by (simp add: gx gy cx cy add.assoc)
  with rho off gx gy show ?thesis by blast
qed

lemma not_on_segment:
  assumes "hypot u v < hypot (gx - c) (gy - c)" "0 \<le> t" "t \<le> 1"
  shows "\<not> (gx = c + t * u \<and> gy = c + t * v)"
proof
  assume "gx = c + t * u \<and> gy = c + t * v"
  then have "hypot (gx - c) (gy - c) = \<bar>t\<bar> * hypot u v" by (simp add: hypot_scale)
  moreover have "0 \<le> hypot u v" by (simp add: hypot_def)
  ultimately have "hypot (gx - c) (gy - c) \<le> hypot u v"
    using assms(2,3) by (simp add: mult_left_le_one_le)
  with assms(1) show False by simp
qed

text \<open>
  Claim C3. For every focus node and every side (in particular every positive side): the
  placed child number \<open>i\<close> sits on the ring of radius \<^verbatim>\<open>ringR\<close> \<open>> 0\<close> around the canvas
  centre, in the direction \<^verbatim>\<open>angle\<close>; each of its tier-2 bubbles sits at a positive distance
  from the child's centre in a direction that deviates from that outward direction by less
  than half of \<^verbatim>\<open>arcSpan\<close> (150 degrees); its centre is strictly farther from the canvas
  centre than the child's centre is, and it lies nowhere on the segment from the canvas
  centre to the child's centre.
\<close>

theorem grandchildren_on_outward_arc:
  "\<exists>gss. computeBubblePackingLayout focus side =
           Inr \<lparr>nodes = parentPlaced focus side # map asBubble (placedChildren focus side) @ concat gss,
                l_side = side\<rparr> \<and>
         length gss = length (childrenOrEmpty focus) \<and>
         (\<forall>i < length gss.
            length (gss ! i) = length (childrenOrEmpty (childrenOrEmpty focus ! i)) \<and>
            0 < ringR side (map (childInfoOf side) (childrenOrEmpty focus)) \<and>
            b_x (placedChildren focus side ! i) =
              side / 2 + ringR side (map (childInfoOf side) (childrenOrEmpty focus))
                           * cos (angle (placedChildren focus side ! i)) \<and>
            b_y (placedChildren focus side ! i) =
              side / 2 + ringR side (map (childInfoOf side) (childrenOrEmpty focus))
                           * sin (angle (placedChildren focus side ! i)) \<and>
            (\<forall>g \<in> set (gss ! i).
               (\<exists>\<rho> \<theta>. 0 < \<rho> \<and> \<bar>\<theta> - angle (placedChildren focus side ! i)\<bar> < arcSpan / 2 \<and>
                  b_x g = b_x (placedChildren focus side ! i) + \<rho> * cos \<theta> \<and>
                  b_y g = b_y (placedChildren focus side ! i) + \<rho> * sin \<theta>) \<and>
               hypot (b_x (placedChildren focus side ! i) - side / 2)
                     (b_y (placedChildren focus side ! i) - side / 2)
                 < hypot (b_x g - side / 2) (b_y g - side / 2) \<and>
               (\<forall>t. 0 \<le> t \<and> t \<le> 1 \<longrightarrow>
                  \<not> (b_x g = side / 2 + t * (b_x (placedChildren focus side ! i) - side / 2) \<and>
                     b_y g = side / 2 + t * (b_y (placedChildren focus side ! i) - side / 2)))))"
proof -
  let ?placed = "placedChildren focus side"
  let ?cs = "childrenOrEmpty focus"
  let ?R = "ringR side (map (childInfoOf side) ?cs)"
  have R: "0 < ?R" using ringR_ge[of side "map (childInfoOf side) ?cs"] by linarith
  obtain gss where l: "computeBubblePackingLayout focus side =
           Inr \<lparr>nodes = parentPlaced focus side # map asBubble ?placed @ concat gss, l_side = side\<rparr>"
    and len: "length gss = length ?cs"
    and pg: "\<forall>i < length ?cs. placeGrandchildren side ?placed (?placed ! i) = Inr (gss ! i)"
    using layout_form[of focus side] by blast
  have main: "length (gss ! i) = length (childrenOrEmpty (?cs ! i)) \<and> 0 < ?R \<and>
        b_x (?placed ! i) = side / 2 + ?R * cos (angle (?placed ! i)) \<and>
        b_y (?placed ! i) = side / 2 + ?R * sin (angle (?placed ! i)) \<and>
        (\<forall>g \<in> set (gss ! i).
           (\<exists>\<rho> \<theta>. 0 < \<rho> \<and> \<bar>\<theta> - angle (?placed ! i)\<bar> < arcSpan / 2 \<and>
              b_x g = b_x (?placed ! i) + \<rho> * cos \<theta> \<and> b_y g = b_y (?placed ! i) + \<rho> * sin \<theta>) \<and>
           hypot (b_x (?placed ! i) - side / 2) (b_y (?placed ! i) - side / 2)
             < hypot (b_x g - side / 2) (b_y g - side / 2) \<and>
           (\<forall>t. 0 \<le> t \<and> t \<le> 1 \<longrightarrow>
              \<not> (b_x g = side / 2 + t * (b_x (?placed ! i) - side / 2) \<and>
                 b_y g = side / 2 + t * (b_y (?placed ! i) - side / 2))))"
    if "i < length gss" for i
  proof -
    from that len have i: "i < length ?cs" by simp
    then have mem: "?placed ! i \<in> set ?placed" by simp
    note cx = placedChildren_on_ring(1)[OF mem] and cy = placedChildren_on_ring(2)[OF mem]
    from pg i have p: "placeGrandchildren side ?placed (?placed ! i) = Inr (gss ! i)" by simp
    have "(\<exists>\<rho> \<theta>. 0 < \<rho> \<and> \<bar>\<theta> - angle (?placed ! i)\<bar> < arcSpan / 2 \<and>
              b_x g = b_x (?placed ! i) + \<rho> * cos \<theta> \<and> b_y g = b_y (?placed ! i) + \<rho> * sin \<theta>) \<and>
           hypot (b_x (?placed ! i) - side / 2) (b_y (?placed ! i) - side / 2)
             < hypot (b_x g - side / 2) (b_y g - side / 2) \<and>
           (\<forall>t. 0 \<le> t \<and> t \<le> 1 \<longrightarrow>
              \<not> (b_x g = side / 2 + t * (b_x (?placed ! i) - side / 2) \<and>
                 b_y g = side / 2 + t * (b_y (?placed ! i) - side / 2)))"
      if g: "g \<in> set (gss ! i)" for g
    proof -
      from placeGrandchildren_outward[OF p g R cx cy]
      obtain \<rho> \<theta> where a: "0 < \<rho>" "\<bar>\<theta> - angle (?placed ! i)\<bar> < arcSpan / 2"
          "b_x g = b_x (?placed ! i) + \<rho> * cos \<theta>" "b_y g = b_y (?placed ! i) + \<rho> * sin \<theta>"
        and far: "hypot (b_x (?placed ! i) - side / 2) (b_y (?placed ! i) - side / 2)
                   < hypot (b_x g - side / 2) (b_y g - side / 2)"
        by blast
      from not_on_segment[OF far] a far show ?thesis by blast
    qed
    moreover have "length (gss ! i) = length (childrenOrEmpty (?cs ! i))"
      using placeGrandchildren_length[OF p] placedChildren_nth(3)[OF i, of side] by simp
    ultimately show ?thesis using R cx cy by blast
  qed
  from l len main show ?thesis by blast
qed

text \<open>
  Claim C3 on a focus whose second child has one child, side 600: the tier-2 bubble is
  farther from the canvas centre than its owner, and it is not the midpoint between the
  canvas centre and its owner.
\<close>

theorem grandchildren_on_outward_arc_witness:
  "\<exists>gss. computeBubblePackingLayout (branch ''K'' [leaf ''Bio'', branch ''Art'' [leaf ''Style'']]) 600 =
           Inr \<lparr>nodes = parentPlaced (branch ''K'' [leaf ''Bio'', branch ''Art'' [leaf ''Style'']]) 600
                   # map asBubble (placedChildren (branch ''K'' [leaf ''Bio'', branch ''Art'' [leaf ''Style'']]) 600)
                   @ concat gss,
                l_side = 600\<rparr> \<and>
         length gss = 2 \<and> length (gss ! 1) = 1 \<and>
         hypot (b_x (placedChildren (branch ''K'' [leaf ''Bio'', branch ''Art'' [leaf ''Style'']]) 600 ! 1) - 600 / 2)
               (b_y (placedChildren (branch ''K'' [leaf ''Bio'', branch ''Art'' [leaf ''Style'']]) 600 ! 1) - 600 / 2)
           < hypot (b_x (gss ! 1 ! 0) - 600 / 2) (b_y (gss ! 1 ! 0) - 600 / 2) \<and>
         \<not> (b_x (gss ! 1 ! 0) = 600 / 2 + 1 / 2 *
                 (b_x (placedChildren (branch ''K'' [leaf ''Bio'', branch ''Art'' [leaf ''Style'']]) 600 ! 1) - 600 / 2) \<and>
            b_y (gss ! 1 ! 0) = 600 / 2 + 1 / 2 *
                 (b_y (placedChildren (branch ''K'' [leaf ''Bio'', branch ''Art'' [leaf ''Style'']]) 600 ! 1) - 600 / 2))"
proof -
  let ?f = "branch ''K'' [leaf ''Bio'', branch ''Art'' [leaf ''Style'']]"
  have cs: "childrenOrEmpty ?f = [leaf ''Bio'', branch ''Art'' [leaf ''Style'']]"
    by (simp add: childrenOrEmpty_def branch_def)
  from grandchildren_on_outward_arc[of ?f 600] obtain gss where
    l: "computeBubblePackingLayout ?f 600 =
           Inr \<lparr>nodes = parentPlaced ?f 600 # map asBubble (placedChildren ?f 600) @ concat gss,
                l_side = 600\<rparr>"
    and len: "length gss = length (childrenOrEmpty ?f)"
    and all: "\<forall>i < length gss.
            length (gss ! i) = length (childrenOrEmpty (childrenOrEmpty ?f ! i)) \<and>
            0 < ringR 600 (map (childInfoOf 600) (childrenOrEmpty ?f)) \<and>
            b_x (placedChildren ?f 600 ! i) =
              600 / 2 + ringR 600 (map (childInfoOf 600) (childrenOrEmpty ?f))
                           * cos (angle (placedChildren ?f 600 ! i)) \<and>
            b_y (placedChildren ?f 600 ! i) =
              600 / 2 + ringR 600 (map (childInfoOf 600) (childrenOrEmpty ?f))
                           * sin (angle (placedChildren ?f 600 ! i)) \<and>
            (\<forall>g \<in> set (gss ! i).
               (\<exists>\<rho> \<theta>. 0 < \<rho> \<and> \<bar>\<theta> - angle (placedChildren ?f 600 ! i)\<bar> < arcSpan / 2 \<and>
                  b_x g = b_x (placedChildren ?f 600 ! i) + \<rho> * cos \<theta> \<and>
                  b_y g = b_y (placedChildren ?f 600 ! i) + \<rho> * sin \<theta>) \<and>
               hypot (b_x (placedChildren ?f 600 ! i) - 600 / 2)
                     (b_y (placedChildren ?f 600 ! i) - 600 / 2)
                 < hypot (b_x g - 600 / 2) (b_y g - 600 / 2) \<and>
               (\<forall>t. 0 \<le> t \<and> t \<le> 1 \<longrightarrow>
                  \<not> (b_x g = 600 / 2 + t * (b_x (placedChildren ?f 600 ! i) - 600 / 2) \<and>
                     b_y g = 600 / 2 + t * (b_y (placedChildren ?f 600 ! i) - 600 / 2))))"
    by blast
  from len cs have n: "length gss = 2" by simp
  then have "(1::nat) < length gss" by simp
  with all have one: "length (gss ! 1) = length (childrenOrEmpty (childrenOrEmpty ?f ! 1))"
    and far: "\<forall>g \<in> set (gss ! 1).
               hypot (b_x (placedChildren ?f 600 ! 1) - 600 / 2)
                     (b_y (placedChildren ?f 600 ! 1) - 600 / 2)
                 < hypot (b_x g - 600 / 2) (b_y g - 600 / 2)"
    and seg: "\<forall>g \<in> set (gss ! 1). \<forall>t. 0 \<le> t \<and> t \<le> 1 \<longrightarrow>
                  \<not> (b_x g = 600 / 2 + t * (b_x (placedChildren ?f 600 ! 1) - 600 / 2) \<and>
                     b_y g = 600 / 2 + t * (b_y (placedChildren ?f 600 ! 1) - 600 / 2))"
    by blast+
  from one cs have n1: "length (gss ! 1) = 1" by (simp add: childrenOrEmpty_def branch_def leaf_def)
  then have "gss ! 1 ! 0 \<in> set (gss ! 1)" by simp
  with far have "hypot (b_x (placedChildren ?f 600 ! 1) - 600 / 2)
                     (b_y (placedChildren ?f 600 ! 1) - 600 / 2)
                 < hypot (b_x (gss ! 1 ! 0) - 600 / 2) (b_y (gss ! 1 ! 0) - 600 / 2)"
    by blast
  moreover have "\<not> (b_x (gss ! 1 ! 0) = 600 / 2 + 1 / 2 * (b_x (placedChildren ?f 600 ! 1) - 600 / 2) \<and>
            b_y (gss ! 1 ! 0) = 600 / 2 + 1 / 2 * (b_y (placedChildren ?f 600 ! 1) - 600 / 2))"
  proof -
    have "(0::real) \<le> 1 / 2 \<and> (1 / 2 :: real) \<le> 1" by simp
    with seg \<open>gss ! 1 ! 0 \<in> set (gss ! 1)\<close> show ?thesis by blast
  qed
  ultimately show ?thesis using l n n1 by blast
qed

subsection \<open>Claim C2: separation of the children on their ring\<close>

lemma pi_ge_3: "3 \<le> pi"
proof -
  have "sin (pi / 6) \<le> pi / 6" by (rule sin_x_le_x) simp
  then show ?thesis by (simp add: sin_30)
qed

lemma fold_sum_acc:
  "fold (\<lambda>it acc. acc + f it) its (a :: real) = a + sum_list (map f its)"
  by (induction its arbitrary: a) simp_all

lemma circumferenceNeeded_sum:
  "circumferenceNeeded side its = sum_list (map (\<lambda>it. 2 * ci_r it + gapC side) its)"
  by (simp add: circumferenceNeeded_def fold_sum_acc)

lemma ringR_fits: "circumferenceNeeded side its \<le> 2 * pi * ringR side its"
proof -
  have "circumferenceNeeded side its / (2 * pi) \<le> ringR side its" by (simp add: ringR_def)
  then show ?thesis by (simp add: pos_divide_le_eq mult.commute)
qed

lemma placeChildren_angle_hd:
  assumes "rc = 2 * pi * rr" "rr \<noteq> 0" "its \<noteq> []"
  shows "rr * angle (hd (placeChildren fn side rr rc theta its))
           = rr * theta + (2 * ci_r (hd its) + gapC side) / 2"
  using assms by (cases its) (simp_all add: Let_def field_simps)

lemma placeChildren_angle_last:
  assumes "rc = 2 * pi * rr" "rr \<noteq> 0" "its \<noteq> []"
  shows "rr * angle (last (placeChildren fn side rr rc theta its))
           = rr * theta + sum_list (map (\<lambda>it. 2 * ci_r it + gapC side) its)
               - (2 * ci_r (last its) + gapC side) / 2"
  using assms(3)
proof (induction its arbitrary: theta)
  case Nil then show ?case by simp
next
  case (Cons it its)
  show ?case
  proof (cases "its = []")
    case True
    then show ?thesis using assms(1,2) by (simp add: Let_def field_simps)
  next
    case False
    then have ne: "placeChildren fn side rr rc (theta + (2 * ci_r it + gapC side) / rc * 2 * pi) its \<noteq> []"
      by (cases its) (simp_all add: Let_def)
    have d: "rr * ((2 * ci_r it + gapC side) / rc * 2 * pi) = 2 * ci_r it + gapC side"
      using assms(1,2) by (simp add: field_simps)
    show ?thesis
      using Cons.IH[OF False, of "theta + (2 * ci_r it + gapC side) / rc * 2 * pi"] False ne d
      by (simp add: Let_def algebra_simps)
  qed
qed

lemma placeChildren_angle_step:
  assumes "rc = 2 * pi * rr" "rr \<noteq> 0" "Suc i < length its"
  shows "rr * (angle (placeChildren fn side rr rc theta its ! Suc i)
               - angle (placeChildren fn side rr rc theta its ! i))
           = ci_r (its ! i) + ci_r (its ! Suc i) + gapC side"
  using assms(3)
proof (induction its arbitrary: theta i)
  case Nil then show ?case by simp
next
  case (Cons a its)
  then obtain b rest where its: "its = b # rest" by (cases its) auto
  show ?case
  proof (cases i)
    case 0
    then show ?thesis using assms(1,2) its by (simp add: Let_def field_simps)
  next
    case (Suc j)
    with Cons.prems have "Suc j < length its" by simp
    from Cons.IH[OF this] show ?thesis using Suc by (simp add: Let_def)
  qed
qed

lemma sq_diff_expand:
  fixes R c s c' s' :: real
  shows "(R * c - R * c')\<^sup>2 + (R * s - R * s')\<^sup>2
     = R\<^sup>2 * (c\<^sup>2 + s\<^sup>2) + R\<^sup>2 * (c'\<^sup>2 + s'\<^sup>2) - 2 * R\<^sup>2 * (c' * c + s' * s)"
  by (simp add: power2_eq_square algebra_simps)

lemma chord_sq:
  fixes R a b :: real
  shows "(R * cos a - R * cos b)\<^sup>2 + (R * sin a - R * sin b)\<^sup>2 = 2 * R\<^sup>2 * (1 - cos (b - a))"
  unfolding sq_diff_expand cos_diff by (simp add: algebra_simps)

lemma sin_lower:
  assumes "0 \<le> (x::real)"
  shows "x - x ^ 3 / 6 \<le> sin x"
proof (cases "x = 0")
  case True then show ?thesis by simp
next
  case False
  with assms have x: "0 < x" by simp
  from Maclaurin_sin_expansion3[of 3 x] x obtain t where
    e: "sin x = (\<Sum>m<3. sin_coeff m * x ^ m) + (sin (t + 1 / 2 * real 3 * pi) / fact 3) * x ^ 3"
    by auto
  have s: "(\<Sum>m<3. sin_coeff m * x ^ m) = x"
    by (simp add: sin_coeff_def numeral_3_eq_3)
  have f: "fact 3 = (6::real)" by (simp add: fact_numeral)
  have "- 1 \<le> sin (t + 1 / 2 * real 3 * pi)" by (rule sin_ge_minus_one)
  moreover have "0 \<le> x ^ 3 / 6" using x by simp
  ultimately have "- 1 * (x ^ 3 / 6) \<le> sin (t + 1 / 2 * real 3 * pi) * (x ^ 3 / 6)"
    by (rule mult_right_mono)
  then show ?thesis unfolding e s f by simp
qed

lemma cos_le_on_arc:
  assumes "0 \<le> \<delta>" "\<delta> \<le> \<Delta>" "\<Delta> \<le> 2 * pi - \<delta>"
  shows "cos \<Delta> \<le> cos \<delta>"
proof (cases "\<Delta> \<le> pi")
  case True
  with assms show ?thesis by (intro cos_monotone_0_pi_le)
next
  case False
  have "cos (2 * pi - \<Delta>) \<le> cos \<delta>"
    using assms False by (intro cos_monotone_0_pi_le) simp_all
  then show ?thesis by simp
qed

text \<open>Two points of a ring of radius \<open>R\<close> whose directions are at least \<open>\<delta>\<close> apart, on
  both sides of the ring, are at least the chord of \<open>\<delta>\<close> apart.\<close>

lemma chord_lower:
  assumes R: "0 < R" and d: "0 \<le> \<delta>" "\<delta> \<le> b - a" "b - a \<le> 2 * pi - \<delta>"
  shows "2 * R * sin (\<delta> / 2) \<le> hypot (R * cos a - R * cos b) (R * sin a - R * sin b)"
proof -
  have dpi: "\<delta> \<le> pi" using d by linarith
  have s0: "0 \<le> sin (\<delta> / 2)" using d(1) dpi by (intro sin_ge_zero) simp_all
  have "cos (b - a) \<le> cos \<delta>" by (rule cos_le_on_arc[OF d])
  moreover have "cos \<delta> = 1 - 2 * (sin (\<delta> / 2))\<^sup>2"
    using cos_double_sin[of "\<delta> / 2"] by simp
  ultimately have "2 * (sin (\<delta> / 2))\<^sup>2 \<le> 1 - cos (b - a)" by simp
  then have "2 * R\<^sup>2 * (2 * (sin (\<delta> / 2))\<^sup>2) \<le> 2 * R\<^sup>2 * (1 - cos (b - a))"
    by (intro mult_left_mono) simp_all
  then have "(2 * R * sin (\<delta> / 2))\<^sup>2 \<le> (R * cos a - R * cos b)\<^sup>2 + (R * sin a - R * sin b)\<^sup>2"
    unfolding chord_sq by (simp add: power_mult_distrib)
  then have "sqrt ((2 * R * sin (\<delta> / 2))\<^sup>2)
               \<le> sqrt ((R * cos a - R * cos b)\<^sup>2 + (R * sin a - R * sin b)\<^sup>2)"
    by (rule real_sqrt_le_mono)
  moreover have "sqrt ((2 * R * sin (\<delta> / 2))\<^sup>2) = 2 * R * sin (\<delta> / 2)"
    using R s0 by simp
  ultimately show ?thesis by (simp add: hypot_def)
qed

text \<open>When the arc \<open>s = r\<^sub>i + r\<^sub>j + g\<close> between two directions is short enough for the
  gap \<open>g\<close> to absorb the difference between arc and chord, the chord is at least
  \<open>r\<^sub>i + r\<^sub>j\<close>.\<close>

lemma chord_covers_radii:
  fixes R s g :: real
  assumes R: "0 < R" and s: "0 \<le> s" and c: "s ^ 3 \<le> 24 * g * R\<^sup>2"
  shows "s - g \<le> 2 * R * sin (s / R / 2)"
proof -
  define x where "x = s / R / 2"
  have x0: "0 \<le> x" using R s by (simp add: x_def)
  have sx: "s = 2 * R * x" using R by (simp add: x_def)
  have "x ^ 3 * (8 * R ^ 3) = s ^ 3" unfolding sx by (simp add: power_mult_distrib)
  then have "x ^ 3 * (8 * R ^ 3) \<le> 24 * g * R\<^sup>2" using c by simp
  then have "x ^ 3 * R * (8 * R\<^sup>2) \<le> 3 * g * (8 * R\<^sup>2)"
    by (simp add: power3_eq_cube power2_eq_square algebra_simps)
  then have "x ^ 3 * R \<le> 3 * g"
    using R by (simp only: mult_le_cancel_right) (simp add: not_less)
  then have "2 * R * (x ^ 3 / 6) \<le> g" by (simp add: mult.commute)
  moreover have "2 * R * (x - x ^ 3 / 6) \<le> 2 * R * sin x"
    using sin_lower[OF x0] R by (intro mult_left_mono) simp_all
  ultimately have "2 * R * x - g \<le> 2 * R * sin x" by (simp add: algebra_simps)
  then have "s - g \<le> 2 * R * sin x" by (simp only: sx[symmetric])
  then show ?thesis by (simp only: x_def)
qed

lemma sum_take_Suc:
  "i < length xs \<Longrightarrow>
     sum_list (map g (take (Suc i) xs)) = sum_list (map g (take i xs)) + (g (xs ! i) :: real)"
  by (simp add: take_Suc_conv_app_nth)

lemma sum_take_mono:
  assumes "\<forall>x \<in> set xs. 0 \<le> (g x :: real)" "n \<le> m"
  shows "sum_list (map g (take n xs)) \<le> sum_list (map g (take m xs))"
proof -
  have "take m xs = take n xs @ take (m - n) (drop n xs)"
    using take_add[of n "m - n" xs] assms(2) by simp
  moreover have "0 \<le> sum_list (map g (take (m - n) (drop n xs)))"
    using assms(1) by (intro sum_list_nonneg) (auto dest!: in_set_takeD in_set_dropD)
  ultimately show ?thesis by simp
qed

lemma placeChildren_angle_nth:
  assumes "rc = 2 * pi * rr" "rr \<noteq> 0" "i < length its"
  shows "rr * angle (placeChildren fn side rr rc theta its ! i)
           = rr * theta + sum_list (map (\<lambda>it. 2 * ci_r it + gapC side) (take i its))
               + (2 * ci_r (its ! i) + gapC side) / 2"
  using assms(3)
proof (induction its arbitrary: theta i)
  case Nil then show ?case by simp
next
  case (Cons a its)
  have d: "rr * ((2 * ci_r a + gapC side) / rc * 2 * pi) = 2 * ci_r a + gapC side"
    using assms(1,2) by (simp add: field_simps)
  show ?case
  proof (cases i)
    case 0
    then show ?thesis using assms(1,2) by (simp add: Let_def field_simps)
  next
    case (Suc j)
    with Cons.prems have "j < length its" by simp
    from Cons.IH[OF this, of "theta + (2 * ci_r a + gapC side) / rc * 2 * pi"] d
    show ?thesis using Suc by (simp add: Let_def algebra_simps)
  qed
qed

text \<open>The directions of two placed children are, on both sides of the ring, at least the arc
  \<open>r\<^sub>i + r\<^sub>j + gapC\<close> apart, provided every allotted arc is non-negative and the arcs fit
  on the ring.\<close>

lemma placeChildren_angle_gap:
  assumes rc: "rc = 2 * pi * rr" and rr: "0 < rr"
    and nn: "\<forall>it \<in> set its. 0 \<le> 2 * ci_r it + gapC side"
    and fit: "sum_list (map (\<lambda>it. 2 * ci_r it + gapC side) its) \<le> 2 * pi * rr"
    and ij: "i < j" "j < length its"
  shows "ci_r (its ! i) + ci_r (its ! j) + gapC side
           \<le> rr * (angle (placeChildren fn side rr rc theta its ! j)
                    - angle (placeChildren fn side rr rc theta its ! i))"
    and "ci_r (its ! i) + ci_r (its ! j) + gapC side
           \<le> rr * (2 * pi - (angle (placeChildren fn side rr rc theta its ! j)
                              - angle (placeChildren fn side rr rc theta its ! i)))"
proof -
  let ?f = "\<lambda>it. 2 * ci_r it + gapC side"
  let ?S = "\<lambda>n. sum_list (map ?f (take n its))"
  let ?a = "\<lambda>k. angle (placeChildren fn side rr rc theta its ! k)"
  have rne: "rr \<noteq> 0" using rr by simp
  from ij have i: "i < length its" by simp
  have ai: "rr * ?a i = rr * theta + ?S i + ?f (its ! i) / 2"
    by (rule placeChildren_angle_nth[OF rc rne i])
  have aj: "rr * ?a j = rr * theta + ?S j + ?f (its ! j) / 2"
    by (rule placeChildren_angle_nth[OF rc rne ij(2)])
  have m1: "?S i + ?f (its ! i) \<le> ?S j"
    using sum_take_mono[OF nn, of "Suc i" j] ij(1) sum_take_Suc[OF i, of ?f] by simp
  have m2: "?S j + ?f (its ! j) \<le> 2 * pi * rr"
    using sum_take_mono[OF nn, of "Suc j" "length its"] ij(2) sum_take_Suc[OF ij(2), of ?f] fit
    by simp
  have m0: "0 \<le> ?S i"
    using nn by (intro sum_list_nonneg) (auto dest!: in_set_takeD)
  have fi: "0 \<le> ?f (its ! i)" and fj: "0 \<le> ?f (its ! j)" using nn i ij(2) by simp_all
  define Si Sj ri rj g where "Si = ?S i" and "Sj = ?S j" and "ri = ci_r (its ! i)"
    and "rj = ci_r (its ! j)" and "g = gapC side"
  have "rr * (?a j - ?a i) = rr * ?a j - rr * ?a i" by (simp add: algebra_simps)
  also have "\<dots> = Sj + (2 * rj + g) / 2 - Si - (2 * ri + g) / 2"
    unfolding ai aj Si_def Sj_def ri_def rj_def g_def by simp
  finally have d: "rr * (?a j - ?a i) = Sj + (2 * rj + g) / 2 - Si - (2 * ri + g) / 2" .
  have m1': "Si + (2 * ri + g) \<le> Sj" and m2': "Sj + (2 * rj + g) \<le> 2 * pi * rr"
    and m0': "0 \<le> Si"
    using m1 m2 m0 unfolding Si_def Sj_def ri_def rj_def g_def by simp_all
  have "ri + rj + g \<le> rr * (?a j - ?a i)"
    unfolding d using m1' by (simp add: field_simps)
  then show "ci_r (its ! i) + ci_r (its ! j) + gapC side \<le> rr * (?a j - ?a i)"
    unfolding ri_def rj_def g_def .
  have "rr * (2 * pi - (?a j - ?a i)) = 2 * pi * rr - rr * (?a j - ?a i)"
    by (simp add: algebra_simps)
  then have "ri + rj + g \<le> rr * (2 * pi - (?a j - ?a i))"
    unfolding d using m2' m0' by (simp add: field_simps)
  then show "ci_r (its ! i) + ci_r (its ! j) + gapC side \<le> rr * (2 * pi - (?a j - ?a i))"
    unfolding ri_def rj_def g_def .
qed

lemma childInfo_radius_nonneg: "0 \<le> side \<Longrightarrow> 0 \<le> ci_r (childInfoOf side c)"
  by (simp add: childInfoOf_def clamp_def Let_def max_def)

lemma placedChildren_radius_le:
  assumes "i < length (childrenOrEmpty focus)"
  shows "rParent side + b_r (placedChildren focus side ! i) + 28
           \<le> ringR side (map (childInfoOf side) (childrenOrEmpty focus))"
proof -
  let ?its = "map (childInfoOf side) (childrenOrEmpty focus)"
  have "?its ! i \<in> set ?its" using assms by (intro nth_mem) simp
  then have "ci_r (?its ! i) \<le> fold (\<lambda>it m. max m (ci_r it)) ?its 0"
    by (rule fold_max_ge_elem)
  then have "rParent side + ci_r (?its ! i) + 28 \<le> baseRing side ?its"
    by (simp add: baseRing_def)
  also have "\<dots> \<le> ringR side ?its" by (simp add: ringR_def)
  finally show ?thesis using assms by (simp add: placedChildren_nth(4))
qed

text \<open>
  Claim C2, amended. For every focus node and every side: every tier-1 bubble lies on the
  ring of radius \<^verbatim>\<open>ringR\<close> \<open>> 0\<close> around the centre of the tier-0 bubble, in the direction
  \<^verbatim>\<open>angle\<close>, and \<^verbatim>\<open>ringR\<close> is at least the sum of the two radii plus 28, so no tier-1
  bubble overlaps the focus bubble. Consecutive tier-1 bubbles are separated along the ring by
  an arc of length equal to the sum of their radii plus \<^verbatim>\<open>gapC\<close>, and the arc that closes
  the ring from the last to the first child is at least that long. For a side \<open>\<ge> 0\<close>, any
  two tier-1 bubbles \<open>i < j\<close> whose arc is short enough for the gap to absorb the difference
  between arc and chord, \<open>(r\<^sub>i + r\<^sub>j + gapC)\<^sup>3 \<le> 24 * gapC * ringR\<^sup>2\<close>, do not overlap: the
  Euclidean distance of their centres is at least the sum of their radii.
\<close>

theorem children_ring_separation:
  "\<exists>gss. computeBubblePackingLayout focus side =
           Inr \<lparr>nodes = parentPlaced focus side # map asBubble (placedChildren focus side) @ concat gss,
                l_side = side\<rparr> \<and>
         (\<forall>i < length (placedChildren focus side).
            hypot (b_x (placedChildren focus side ! i) - b_x (parentPlaced focus side))
                  (b_y (placedChildren focus side ! i) - b_y (parentPlaced focus side))
              = ringR side (map (childInfoOf side) (childrenOrEmpty focus)) \<and>
            b_r (parentPlaced focus side) + b_r (placedChildren focus side ! i) + 28
              \<le> ringR side (map (childInfoOf side) (childrenOrEmpty focus))) \<and>
         (\<forall>i. Suc i < length (placedChildren focus side) \<longrightarrow>
            ringR side (map (childInfoOf side) (childrenOrEmpty focus))
              * (angle (placedChildren focus side ! Suc i) - angle (placedChildren focus side ! i))
            = b_r (placedChildren focus side ! i) + b_r (placedChildren focus side ! Suc i) + gapC side) \<and>
         (placedChildren focus side \<noteq> [] \<longrightarrow>
            b_r (last (placedChildren focus side)) + b_r (hd (placedChildren focus side)) + gapC side
              \<le> ringR side (map (childInfoOf side) (childrenOrEmpty focus))
                  * (2 * pi - angle (last (placedChildren focus side))
                     + angle (hd (placedChildren focus side)))) \<and>
         (\<forall>i < length (placedChildren focus side).
            0 < ringR side (map (childInfoOf side) (childrenOrEmpty focus)) \<and>
            b_x (placedChildren focus side ! i) =
              side / 2 + ringR side (map (childInfoOf side) (childrenOrEmpty focus))
                           * cos (angle (placedChildren focus side ! i)) \<and>
            b_y (placedChildren focus side ! i) =
              side / 2 + ringR side (map (childInfoOf side) (childrenOrEmpty focus))
                           * sin (angle (placedChildren focus side ! i))) \<and>
         (\<forall>i j. i < j \<and> j < length (placedChildren focus side) \<and> 0 \<le> side \<and>
            (b_r (placedChildren focus side ! i) + b_r (placedChildren focus side ! j) + gapC side) ^ 3
              \<le> 24 * gapC side * (ringR side (map (childInfoOf side) (childrenOrEmpty focus)))\<^sup>2 \<longrightarrow>
            b_r (placedChildren focus side ! i) + b_r (placedChildren focus side ! j)
              \<le> hypot (b_x (placedChildren focus side ! i) - b_x (placedChildren focus side ! j))
                      (b_y (placedChildren focus side ! i) - b_y (placedChildren focus side ! j)))"
proof -
  let ?placed = "placedChildren focus side"
  let ?cs = "childrenOrEmpty focus"
  let ?its = "map (childInfoOf side) ?cs"
  let ?R = "ringR side ?its"
  have R: "0 < ?R" using ringR_ge[of side ?its] by linarith
  have pc: "?placed = placeChildren (tn_name focus) side ?R (ringCirc side ?its) 0 ?its"
    by (simp add: placedChildren_def Let_def)
  have rc: "ringCirc side ?its = 2 * pi * ?R" by (simp add: ringCirc_def)
  have Rne: "?R \<noteq> 0" using R by simp
  have br: "b_r (?placed ! i) = ci_r (?its ! i)" if "i < length ?cs" for i
    using that by (simp add: placedChildren_nth(4))
  obtain gss where l: "computeBubblePackingLayout focus side =
           Inr \<lparr>nodes = parentPlaced focus side # map asBubble ?placed @ concat gss, l_side = side\<rparr>"
    using layout_form[of focus side] by blast
  have A: "hypot (b_x (?placed ! i) - b_x (parentPlaced focus side))
                 (b_y (?placed ! i) - b_y (parentPlaced focus side)) = ?R \<and>
           b_r (parentPlaced focus side) + b_r (?placed ! i) + 28 \<le> ?R"
    if "i < length ?placed" for i
  proof -
    from that have i: "i < length ?cs" by simp
    from that have mem: "?placed ! i \<in> set ?placed" by simp
    have "hypot (b_x (?placed ! i) - side / 2) (b_y (?placed ! i) - side / 2) = \<bar>?R\<bar>"
      by (simp add: placedChildren_on_ring[OF mem] hypot_ring)
    then show ?thesis
      using R placedChildren_radius_le[OF i, of side] by (simp add: parentPlaced_def)
  qed
  have B: "?R * (angle (?placed ! Suc i) - angle (?placed ! i))
             = b_r (?placed ! i) + b_r (?placed ! Suc i) + gapC side"
    if "Suc i < length ?placed" for i
  proof -
    from that have i: "Suc i < length ?its" "i < length ?cs" "Suc i < length ?cs" by simp_all
    from placeChildren_angle_step[OF rc Rne i(1), of "tn_name focus" side 0]
    show ?thesis unfolding pc[symmetric] by (simp only: br[OF i(2)] br[OF i(3)])
  qed
  have C: "b_r (last ?placed) + b_r (hd ?placed) + gapC side
             \<le> ?R * (2 * pi - angle (last ?placed) + angle (hd ?placed))"
    if "?placed \<noteq> []"
  proof -
    from that have n: "0 < length ?cs"
      by (metis length_greater_0_conv placedChildren_length)
    then have ne: "?its \<noteq> []" by auto
    have la: "?R * angle (last ?placed)
                = sum_list (map (\<lambda>it. 2 * ci_r it + gapC side) ?its)
                  - (2 * ci_r (last ?its) + gapC side) / 2"
      using placeChildren_angle_last[OF rc Rne ne, of "tn_name focus" side 0]
      unfolding pc[symmetric] by simp
    have ha: "?R * angle (hd ?placed) = (2 * ci_r (hd ?its) + gapC side) / 2"
      using placeChildren_angle_hd[OF rc Rne ne, of "tn_name focus" side 0]
      unfolding pc[symmetric] by simp
    have bl: "b_r (last ?placed) = ci_r (last ?its)"
      using that ne n br[of "length ?cs - 1"] by (simp add: last_conv_nth)
    have bh: "b_r (hd ?placed) = ci_r (hd ?its)"
      using that ne n br[of 0] by (simp add: hd_conv_nth)
    have fit: "sum_list (map (\<lambda>it. 2 * ci_r it + gapC side) ?its) \<le> 2 * pi * ?R"
      using ringR_fits[of side ?its] by (simp only: circumferenceNeeded_sum)
    have "?R * (2 * pi - angle (last ?placed) + angle (hd ?placed))
            = 2 * pi * ?R - ?R * angle (last ?placed) + ?R * angle (hd ?placed)"
      by (simp add: algebra_simps)
    also have "\<dots> = 2 * pi * ?R - sum_list (map (\<lambda>it. 2 * ci_r it + gapC side) ?its)
                    + ci_r (last ?its) + ci_r (hd ?its) + gapC side"
      unfolding la ha by (simp add: field_simps)
    finally show ?thesis using fit bl bh by linarith
  qed
  have D: "0 < ?R \<and> b_x (?placed ! i) = side / 2 + ?R * cos (angle (?placed ! i)) \<and>
           b_y (?placed ! i) = side / 2 + ?R * sin (angle (?placed ! i))"
    if "i < length ?placed" for i
  proof -
    from that have mem: "?placed ! i \<in> set ?placed" by simp
    show ?thesis using R placedChildren_on_ring[OF mem] by simp
  qed
  have E: "b_r (?placed ! i) + b_r (?placed ! j)
             \<le> hypot (b_x (?placed ! i) - b_x (?placed ! j)) (b_y (?placed ! i) - b_y (?placed ! j))"
    if ij: "i < j" "j < length ?placed" and side: "0 \<le> side"
      and cube: "(b_r (?placed ! i) + b_r (?placed ! j) + gapC side) ^ 3 \<le> 24 * gapC side * ?R\<^sup>2"
    for i j
  proof -
    from ij have i: "i < length ?cs" and j: "j < length ?cs" and jl: "j < length ?its" by simp_all
    define s where "s = b_r (?placed ! i) + b_r (?placed ! j) + gapC side"
    define ai where "ai = angle (?placed ! i)"
    define aj where "aj = angle (?placed ! j)"
    have g: "6 \<le> gapC side" using gapC_bounds[of side] by simp
    have nn: "\<forall>it \<in> set ?its. 0 \<le> 2 * ci_r it + gapC side"
      using childInfo_radius_nonneg[OF side] g by fastforce
    have fit: "sum_list (map (\<lambda>it. 2 * ci_r it + gapC side) ?its) \<le> 2 * pi * ?R"
      using ringR_fits[of side ?its] by (simp only: circumferenceNeeded_sum)
    have s_eq: "s = ci_r (?its ! i) + ci_r (?its ! j) + gapC side"
      by (simp only: s_def br[OF i] br[OF j])
    have g1: "s \<le> ?R * (aj - ai)" and g2: "s \<le> ?R * (2 * pi - (aj - ai))"
      unfolding s_eq ai_def aj_def pc
      by (rule placeChildren_angle_gap[OF rc R nn fit ij(1) jl])+
    have r_nn: "0 \<le> ci_r (?its ! i)" "0 \<le> ci_r (?its ! j)"
      using i j childInfo_radius_nonneg[OF side] by simp_all
    have s0: "0 \<le> s" unfolding s_eq using r_nn g by linarith
    have d0: "0 \<le> s / ?R" using s0 R by simp
    have d1: "s / ?R \<le> aj - ai" using g1 R by (simp add: pos_divide_le_eq mult.commute)
    have "s / ?R \<le> 2 * pi - (aj - ai)" using g2 R by (simp add: pos_divide_le_eq mult.commute)
    then have d2: "aj - ai \<le> 2 * pi - s / ?R" by linarith
    have "s - gapC side \<le> 2 * ?R * sin (s / ?R / 2)"
      using cube by (intro chord_covers_radii[OF R s0]) (simp only: s_def)
    also have "\<dots> \<le> hypot (?R * cos ai - ?R * cos aj) (?R * sin ai - ?R * sin aj)"
      by (rule chord_lower[OF R d0 d1 d2])
    also have "\<dots> = hypot (b_x (?placed ! i) - b_x (?placed ! j)) (b_y (?placed ! i) - b_y (?placed ! j))"
      using D[of i] D[of j] ij by (simp add: ai_def aj_def)
    finally show ?thesis by (simp add: s_def)
  qed
  from l A B C D E show ?thesis by blast
qed

lemma two_leaves_ring:
  "ringR 6400 (map (childInfoOf 6400) (childrenOrEmpty (branch ''F'' [leaf ''A'', leaf ''B'']))) = 532"
proof -
  have "1568 / (2 * pi) \<le> 1568 / (2 * 2)"
    using pi_ge_two by (intro divide_left_mono) simp_all
  then have "1568 / (2 * pi) \<le> 532" by simp
  then show ?thesis
    by (simp add: ringR_def baseRing_def circumferenceNeeded_def rParent_def gapC_def clamp_def
        childInfoOf_def childrenOrEmpty_def branch_def leaf_def Let_def)
qed

lemma two_leaves_nodes:
  "layoutNodes (computeBubblePackingLayout (branch ''F'' [leaf ''A'', leaf ''B'']) 6400) ! 1
     = asBubble (placedChildren (branch ''F'' [leaf ''A'', leaf ''B'']) 6400 ! 0) \<and>
   layoutNodes (computeBubblePackingLayout (branch ''F'' [leaf ''A'', leaf ''B'']) 6400) ! 2
     = asBubble (placedChildren (branch ''F'' [leaf ''A'', leaf ''B'']) 6400 ! 1)"
proof -
  let ?f = "branch ''F'' [leaf ''A'', leaf ''B'']"
  have n: "length (placedChildren ?f 6400) = 2"
    by (simp add: childrenOrEmpty_def branch_def)
  obtain gss where "computeBubblePackingLayout ?f 6400 =
           Inr \<lparr>nodes = parentPlaced ?f 6400 # map asBubble (placedChildren ?f 6400) @ concat gss,
                l_side = 6400\<rparr>"
    using layout_form[of ?f 6400] by blast
  then have "layoutNodes (computeBubblePackingLayout ?f 6400)
               = parentPlaced ?f 6400 # map asBubble (placedChildren ?f 6400) @ concat gss"
    by (simp add: layoutNodes_def)
  then show ?thesis using n by (simp add: nth_append nth_Cons')
qed

text \<open>
  Claim C2 as stated fails. With side 6400 and two childless children, both tier-1 bubbles
  have radius 384 and lie on the ring of radius 532, their directions 28/19 radians apart:
  the distance between their centres is below \<open>532 * sqrt 2 < 768\<close>, the sum of their radii.
  The ring radius is sized by arc length, and the chord is shorter than the arc.
\<close>

theorem children_overlap_counterexample:
  "b_depth (layoutNodes (computeBubblePackingLayout (branch ''F'' [leaf ''A'', leaf ''B'']) 6400) ! 1) = 1 \<and>
   b_depth (layoutNodes (computeBubblePackingLayout (branch ''F'' [leaf ''A'', leaf ''B'']) 6400) ! 2) = 1 \<and>
   hypot (b_x (layoutNodes (computeBubblePackingLayout (branch ''F'' [leaf ''A'', leaf ''B'']) 6400) ! 1)
          - b_x (layoutNodes (computeBubblePackingLayout (branch ''F'' [leaf ''A'', leaf ''B'']) 6400) ! 2))
         (b_y (layoutNodes (computeBubblePackingLayout (branch ''F'' [leaf ''A'', leaf ''B'']) 6400) ! 1)
          - b_y (layoutNodes (computeBubblePackingLayout (branch ''F'' [leaf ''A'', leaf ''B'']) 6400) ! 2))
     < b_r (layoutNodes (computeBubblePackingLayout (branch ''F'' [leaf ''A'', leaf ''B'']) 6400) ! 1)
       + b_r (layoutNodes (computeBubblePackingLayout (branch ''F'' [leaf ''A'', leaf ''B'']) 6400) ! 2)"
proof -
  let ?f = "branch ''F'' [leaf ''A'', leaf ''B'']"
  let ?placed = "placedChildren ?f 6400"
  let ?its = "map (childInfoOf 6400) (childrenOrEmpty ?f)"
  define c0 where "c0 = ?placed ! 0"
  define c1 where "c1 = ?placed ! 1"
  have cs: "childrenOrEmpty ?f = [leaf ''A'', leaf ''B'']"
    by (simp add: childrenOrEmpty_def branch_def)
  have n: "length (childrenOrEmpty ?f) = 2" by (simp add: cs)
  have i0: "0 < length (childrenOrEmpty ?f)" and i1: "1 < length (childrenOrEmpty ?f)"
    using n by simp_all
  have R: "ringR 6400 ?its = 532" by (rule two_leaves_ring)
  have ci: "ci_r (childInfoOf 6400 (leaf x)) = 384" for x
    by (simp add: childInfoOf_def childrenOrEmpty_def leaf_def clamp_def Let_def)
  have r0: "b_r c0 = 384" and r1: "b_r c1 = 384"
    using placedChildren_nth(4)[OF i0, of 6400] placedChildren_nth(4)[OF i1, of 6400]
    unfolding cs c0_def c1_def by (simp_all add: ci)
  have d0: "b_depth c0 = 1" and d1: "b_depth c1 = 1"
    using placedChildren_nth(2)[OF i0, of 6400] placedChildren_nth(2)[OF i1, of 6400]
    unfolding c0_def c1_def by simp_all
  have g: "gapC 6400 = 16" by (simp add: gapC_def clamp_def)
  have pc: "?placed = placeChildren (tn_name ?f) 6400 (ringR 6400 ?its) (ringCirc 6400 ?its) 0 ?its"
    by (simp add: placedChildren_def Let_def)
  have "ringR 6400 ?its * (angle (?placed ! Suc 0) - angle (?placed ! 0))
          = ci_r (?its ! 0) + ci_r (?its ! Suc 0) + gapC 6400"
  proof -
    have "ringR 6400 ?its \<noteq> 0" by (simp only: R)
    moreover have "Suc 0 < length ?its" using n by simp
    ultimately show ?thesis
      unfolding pc by (intro placeChildren_angle_step) (simp_all add: ringCirc_def)
  qed
  then have "532 * (angle (?placed ! Suc 0) - angle (?placed ! 0))
          = ci_r (?its ! 0) + ci_r (?its ! Suc 0) + 16"
    by (simp only: R g)
  then have "532 * (angle c1 - angle c0) = 784"
    unfolding c0_def c1_def by (simp add: cs ci)
  then have diff: "angle c1 - angle c0 = 28 / 19" by simp
  have m0: "c0 \<in> set ?placed" and m1: "c1 \<in> set ?placed"
    unfolding c0_def c1_def using n by simp_all
  have x0: "b_x c0 = 6400 / 2 + 532 * cos (angle c0)"
    and y0: "b_y c0 = 6400 / 2 + 532 * sin (angle c0)"
    and x1: "b_x c1 = 6400 / 2 + 532 * cos (angle c1)"
    and y1: "b_y c1 = 6400 / 2 + 532 * sin (angle c1)"
    using placedChildren_on_ring[OF m0] placedChildren_on_ring[OF m1] by (simp_all only: R)
  have dx: "b_x c0 - b_x c1 = 532 * cos (angle c0) - 532 * cos (angle c1)"
    and dy: "b_y c0 - b_y c1 = 532 * sin (angle c0) - 532 * sin (angle c1)"
    by (simp_all add: x0 y0 x1 y1)
  have sq: "(b_x c0 - b_x c1)\<^sup>2 + (b_y c0 - b_y c1)\<^sup>2 = 2 * 532\<^sup>2 * (1 - cos (28 / 19 :: real))"
    unfolding dx dy chord_sq diff ..
  have "0 \<le> cos (28 / 19 :: real)"
    using pi_ge_3 by (intro cos_ge_zero) simp_all
  then have "2 * 532\<^sup>2 * (1 - cos (28 / 19 :: real)) \<le> 2 * 532\<^sup>2" by simp
  also have "\<dots> < (768 :: real)\<^sup>2" by simp
  finally have "(b_x c0 - b_x c1)\<^sup>2 + (b_y c0 - b_y c1)\<^sup>2 < 768\<^sup>2"
    unfolding sq .
  then have "sqrt ((b_x c0 - b_x c1)\<^sup>2 + (b_y c0 - b_y c1)\<^sup>2) < sqrt (768\<^sup>2)"
    by (simp only: real_sqrt_less_iff)
  then have "hypot (b_x c0 - b_x c1) (b_y c0 - b_y c1) < b_r c0 + b_r c1"
    by (simp add: hypot_def r0 r1)
  moreover have "layoutNodes (computeBubblePackingLayout ?f 6400) ! 1 = asBubble c0"
    and "layoutNodes (computeBubblePackingLayout ?f 6400) ! 2 = asBubble c1"
    using two_leaves_nodes unfolding c0_def c1_def by simp_all
  ultimately show ?thesis using d0 d1 by (simp add: asBubble_def)
qed

lemma kusama_ring:
  "ringR 600 (map (childInfoOf 600)
      (childrenOrEmpty (branch ''Kusama'' [leaf ''Bio'', branch ''Art'' [leaf ''Style'']]))) = 163"
proof -
  have "162 / (2 * pi) \<le> 162 / (2 * 2)"
    using pi_ge_two by (intro divide_left_mono) simp_all
  then have "162 / (2 * pi) \<le> 163" by simp
  then show ?thesis
    by (simp add: ringR_def baseRing_def circumferenceNeeded_def rParent_def gapC_def clamp_def
        childInfoOf_def childrenOrEmpty_def branch_def leaf_def Let_def)
qed

text \<open>
  The amended C2 on the specification's example, the focus Kusama with the children Bio and
  Art (which has the child Style) at side 600: the ring radius is 163, the radii are 36 and
  39, the gap is 6, the size condition \<open>81\<^sup>3 \<le> 24 * 6 * 163\<^sup>2\<close> holds, and the two tier-1
  bubbles do not overlap.
\<close>

theorem children_ring_separation_witness:
  "hypot (b_x (placedChildren (branch ''Kusama'' [leaf ''Bio'', branch ''Art'' [leaf ''Style'']]) 600 ! 0)
            - b_x (parentPlaced (branch ''Kusama'' [leaf ''Bio'', branch ''Art'' [leaf ''Style'']]) 600))
         (b_y (placedChildren (branch ''Kusama'' [leaf ''Bio'', branch ''Art'' [leaf ''Style'']]) 600 ! 0)
            - b_y (parentPlaced (branch ''Kusama'' [leaf ''Bio'', branch ''Art'' [leaf ''Style'']]) 600)) = 163 \<and>
   163 * (angle (placedChildren (branch ''Kusama'' [leaf ''Bio'', branch ''Art'' [leaf ''Style'']]) 600 ! Suc 0)
          - angle (placedChildren (branch ''Kusama'' [leaf ''Bio'', branch ''Art'' [leaf ''Style'']]) 600 ! 0))
     = 36 + 39 + 6 \<and>
   b_r (last (placedChildren (branch ''Kusama'' [leaf ''Bio'', branch ''Art'' [leaf ''Style'']]) 600))
     + b_r (hd (placedChildren (branch ''Kusama'' [leaf ''Bio'', branch ''Art'' [leaf ''Style'']]) 600)) + 6
     \<le> 163 * (2 * pi
               - angle (last (placedChildren (branch ''Kusama'' [leaf ''Bio'', branch ''Art'' [leaf ''Style'']]) 600))
               + angle (hd (placedChildren (branch ''Kusama'' [leaf ''Bio'', branch ''Art'' [leaf ''Style'']]) 600))) \<and>
   b_x (placedChildren (branch ''Kusama'' [leaf ''Bio'', branch ''Art'' [leaf ''Style'']]) 600 ! 0)
     = 600 / 2 + 163 * cos (angle (placedChildren (branch ''Kusama'' [leaf ''Bio'', branch ''Art'' [leaf ''Style'']]) 600 ! 0)) \<and>
   36 + 39
     \<le> hypot (b_x (placedChildren (branch ''Kusama'' [leaf ''Bio'', branch ''Art'' [leaf ''Style'']]) 600 ! 0)
                - b_x (placedChildren (branch ''Kusama'' [leaf ''Bio'', branch ''Art'' [leaf ''Style'']]) 600 ! 1))
              (b_y (placedChildren (branch ''Kusama'' [leaf ''Bio'', branch ''Art'' [leaf ''Style'']]) 600 ! 0)
                - b_y (placedChildren (branch ''Kusama'' [leaf ''Bio'', branch ''Art'' [leaf ''Style'']]) 600 ! 1))"
proof -
  let ?f = "branch ''Kusama'' [leaf ''Bio'', branch ''Art'' [leaf ''Style'']]"
  let ?placed = "placedChildren ?f 600"
  let ?R = "ringR 600 (map (childInfoOf 600) (childrenOrEmpty ?f))"
  define c0 where "c0 = ?placed ! 0"
  define c1 where "c1 = ?placed ! 1"
  have cs: "childrenOrEmpty ?f = [leaf ''Bio'', branch ''Art'' [leaf ''Style'']]"
    by (simp add: childrenOrEmpty_def branch_def)
  have nc: "length (childrenOrEmpty ?f) = 2" by (simp add: cs)
  have n: "length ?placed = 2" by (simp add: cs)
  have ne: "?placed \<noteq> []"
  proof
    assume "?placed = []"
    then have "length ?placed = 0" by (simp only: list.size)
    with n show False by (simp only:)
  qed
  have i0: "0 < length (childrenOrEmpty ?f)" and i1: "1 < length (childrenOrEmpty ?f)"
    using nc by simp_all
  have R: "?R = 163" by (rule kusama_ring)
  have g: "gapC 600 = 6" by (simp add: gapC_def clamp_def)
  have r0: "b_r c0 = 36"
    using placedChildren_nth(4)[OF i0, of 600] unfolding cs c0_def
    by (simp add: childInfoOf_def childrenOrEmpty_def leaf_def clamp_def Let_def)
  have r1: "b_r c1 = 39"
    using placedChildren_nth(4)[OF i1, of 600] unfolding cs c1_def
    by (simp add: childInfoOf_def childrenOrEmpty_def leaf_def branch_def clamp_def Let_def)
  have hd_last: "hd ?placed = c0" "last ?placed = c1"
    using n ne unfolding c0_def c1_def by (simp_all add: hd_conv_nth last_conv_nth)
  note T = children_ring_separation[of ?f 600]
  from T have A: "\<forall>i < length ?placed.
            hypot (b_x (?placed ! i) - b_x (parentPlaced ?f 600))
                  (b_y (?placed ! i) - b_y (parentPlaced ?f 600)) = ?R \<and>
            b_r (parentPlaced ?f 600) + b_r (?placed ! i) + 28 \<le> ?R"
    and B: "\<forall>i. Suc i < length ?placed \<longrightarrow>
            ?R * (angle (?placed ! Suc i) - angle (?placed ! i))
            = b_r (?placed ! i) + b_r (?placed ! Suc i) + gapC 600"
    and C: "?placed \<noteq> [] \<longrightarrow>
            b_r (last ?placed) + b_r (hd ?placed) + gapC 600
              \<le> ?R * (2 * pi - angle (last ?placed) + angle (hd ?placed))"
    and D: "\<forall>i < length ?placed.
            0 < ?R \<and> b_x (?placed ! i) = 600 / 2 + ?R * cos (angle (?placed ! i)) \<and>
            b_y (?placed ! i) = 600 / 2 + ?R * sin (angle (?placed ! i))"
    and E: "\<forall>i j. i < j \<and> j < length ?placed \<and> 0 \<le> (600::real) \<and>
            (b_r (?placed ! i) + b_r (?placed ! j) + gapC 600) ^ 3 \<le> 24 * gapC 600 * ?R\<^sup>2 \<longrightarrow>
            b_r (?placed ! i) + b_r (?placed ! j)
              \<le> hypot (b_x (?placed ! i) - b_x (?placed ! j)) (b_y (?placed ! i) - b_y (?placed ! j))"
    by blast+
  have a: "hypot (b_x c0 - b_x (parentPlaced ?f 600)) (b_y c0 - b_y (parentPlaced ?f 600)) = 163"
    using A n unfolding c0_def R by simp
  have "?R * (angle (?placed ! Suc 0) - angle (?placed ! 0))
          = b_r (?placed ! 0) + b_r (?placed ! Suc 0) + gapC 600"
    using B n by simp
  then have b: "163 * (angle (?placed ! Suc 0) - angle c0) = 36 + 39 + 6"
    using r0 r1 unfolding R g c0_def c1_def by simp
  have c: "b_r (last ?placed) + b_r (hd ?placed) + 6
             \<le> 163 * (2 * pi - angle (last ?placed) + angle (hd ?placed))"
    using C ne unfolding R g by simp
  have d: "b_x c0 = 600 / 2 + 163 * cos (angle c0)"
    using D n unfolding c0_def R by simp
  have cube: "(b_r c0 + b_r c1 + gapC 600) ^ 3 \<le> 24 * gapC 600 * ?R\<^sup>2"
    unfolding r0 r1 g R by simp
  have "(0::nat) < 1 \<and> 1 < length ?placed \<and> 0 \<le> (600::real) \<and>
            (b_r (?placed ! 0) + b_r (?placed ! 1) + gapC 600) ^ 3 \<le> 24 * gapC 600 * ?R\<^sup>2"
    using n cube unfolding c0_def c1_def by simp
  with E have "b_r (?placed ! 0) + b_r (?placed ! 1)
              \<le> hypot (b_x (?placed ! 0) - b_x (?placed ! 1)) (b_y (?placed ! 0) - b_y (?placed ! 1))"
    by blast
  then have e: "36 + 39 \<le> hypot (b_x c0 - b_x c1) (b_y c0 - b_y c1)"
    using r0 r1 unfolding c0_def c1_def by simp
  show ?thesis
    using a b c d e unfolding c0_def c1_def by (intro conjI)
qed

end
